theory Spec2Isabelle
  imports Main "HOL-Library.Word" "HOL-Library.Char_ord" "HOL-Library.List_Lexorder"
    "HOL-Library.AList"
begin

section \<open>Encrypted capture store (models/SessionData)\<close>

text \<open>
  The store keeps two SQLite tables, \<open>capture_sessions\<close> and \<open>captured_data\<close>; each
  phone number and safety code is kept as the text envelope \<open>iv:tag:ciphertext\<close>, every part
  in lower-case hex. The model follows \<open>SessionData\<close> method by method. What the methods obtain
  from their environment is an explicit argument:
  \<^item> the bytes of \<open>crypto.randomBytes(16)\<close> (\<open>iv\<close>);
  \<^item> Node's AES-256-GCM under the process-wide key (\<open>aes_gcm\<close>): \<open>seal\<close> stands for
    \<open>createCipheriv\<close>, \<open>update\<close>, \<open>final\<close>, \<open>getAuthTag\<close>, and \<open>unseal\<close> for
    \<open>createDecipheriv\<close>, \<open>setAuthTag\<close>, \<open>update\<close>, \<open>final\<close>, with \<open>None\<close> when one of them
    throws (the tag does not verify, or a length is refused). Text is taken as the sequence of
    its UTF-8 bytes, so the \<open>'utf8'\<close> transcoding of \<open>update\<close> is part of \<open>seal\<close> and \<open>unseal\<close>;
  \<^item> the \<open>err\<close> argument SQLite hands to a callback (\<open>db_error option\<close>);
  \<^item> the texts SQLite computes for \<open>CURRENT_TIMESTAMP\<close> and \<open>datetime('now')\<close>, and JavaScript's
    \<open>Date.prototype.toISOString\<close>.
\<close>

type_synonym byte = "8 word"
type_synonym sid = nat
type_synonym time = int

subsection \<open>Hex text and the envelope\<close>

definition hexDigit :: "nat \<Rightarrow> char" where
  "hexDigit n = (if n < 10 then char_of (48 + n) else char_of (87 + n))"

text \<open>\<open>buf.toString('hex')\<close>: two lower-case digits per byte.\<close>

definition toHex :: "byte list \<Rightarrow> string" where
  "toHex bs = concat (map (\<lambda>b. [hexDigit (unat b div 16), hexDigit (unat b mod 16)]) bs)"

definition hexVal :: "char \<Rightarrow> nat option" where
  "hexVal c =
     (let n = (of_char c :: nat) in
      if 48 \<le> n \<and> n \<le> 57 then Some (n - 48)
      else if 97 \<le> n \<and> n \<le> 102 then Some (n - 87)
      else if 65 \<le> n \<and> n \<le> 70 then Some (n - 55)
      else None)"

text \<open>
  \<open>Buffer.from(s, 'hex')\<close>: pairs of hex digits are decoded from the left; decoding stops at
  the first pair that is not two hex digits, and a last single character is dropped.
\<close>

fun fromHex :: "string \<Rightarrow> byte list" where
  "fromHex (a # b # cs) =
     (case hexVal a of
        None \<Rightarrow> []
      | Some h \<Rightarrow> (case hexVal b of None \<Rightarrow> [] | Some l \<Rightarrow> of_nat (16 * h + l) # fromHex cs))"
| "fromHex cs = []"

text \<open>\<open>String.prototype.split\<close> on a one-character separator.\<close>

fun split :: "char \<Rightarrow> string \<Rightarrow> string list" where
  "split sep [] = [[]]"
| "split sep (c # cs) =
     (if c = sep then [] # split sep cs
      else (case split sep cs of [] \<Rightarrow> [[c]] | p # ps \<Rightarrow> (c # p) # ps))"

record aes_gcm =
  seal :: "byte list \<Rightarrow> string \<Rightarrow> byte list \<times> byte list"
  unseal :: "byte list \<Rightarrow> byte list \<Rightarrow> byte list \<Rightarrow> string option"

text \<open>
  \<open>encrypt(text)\<close>, lines 64-71. \<open>seal g iv text\<close> is the pair (ciphertext, authentication tag).
\<close>

definition encrypt :: "aes_gcm \<Rightarrow> byte list \<Rightarrow> string \<Rightarrow> string" where
  "encrypt g iv text =
     (case seal g iv text of
        (encrypted, authTag) \<Rightarrow> toHex iv @ '':'' @ toHex authTag @ '':'' @ toHex encrypted)"

datatype crypto_error = TypeError | DecipherError

text \<open>
  \<open>decrypt(encryptedData)\<close>, lines 73-82. The destructuring takes the first three pieces of the
  split; with fewer, \<open>Buffer.from(undefined, 'hex')\<close> or \<open>update(undefined, ...)\<close> throws a
  \<open>TypeError\<close>. \<open>Buffer.from\<close> decodes leniently, but \<open>update(encrypted, 'hex', 'utf8')\<close> refuses
  hex text with an odd number of characters, again with a \<open>TypeError\<close>. Every other exception
  of the decipher is \<open>DecipherError\<close>.
\<close>

definition decrypt :: "aes_gcm \<Rightarrow> string \<Rightarrow> crypto_error + string" where
  "decrypt g encryptedData =
     (case split CHR '':'' encryptedData of
        ivHex # authTagHex # encrypted # rest \<Rightarrow>
          if odd (length encrypted) then Inl TypeError
          else
            (case unseal g (fromHex ivHex) (fromHex authTagHex) (fromHex encrypted) of
               None \<Rightarrow> Inl DecipherError
             | Some decrypted \<Rightarrow> Inr decrypted)
      | _ \<Rightarrow> Inl TypeError)"

subsection \<open>Tables\<close>

record capture_session =
  cs_id :: nat
  cs_session_id :: sid
  mo_username :: string
  cs_created_at :: string
  expires_at :: string
  cs_status :: string

record captured =
  cd_id :: nat
  cd_session_id :: sid
  encrypted_phone :: string
  encrypted_safety_code :: string
  cd_created_at :: string
  cd_status :: string

text \<open>
  The two \<open>AUTOINCREMENT\<close> keys take their next value from SQLite's sequence table, kept
  here as \<open>capture_sessions_seq\<close> and \<open>captured_data_seq\<close>.
\<close>

record database =
  capture_sessions :: "capture_session list"
  captured_data :: "captured list"
  capture_sessions_seq :: nat
  captured_data_seq :: nat

datatype db_error = SQLITE_ERROR | SQLITE_CONSTRAINT

text \<open>
  How a method's promise ends: resolved with a value, rejected with the database's error, or
  never settled because an exception left the database callback (\<open>Thrown\<close>).
\<close>

datatype 'a promise = Resolved 'a | Rejected db_error | Thrown crypto_error

record created_session =
  created_id :: nat
  sessionId :: sid
  expiresAt :: time

text \<open>
  \<open>createSession(sessionId, moUsername)\<close>, lines 84-97. \<open>session_id\<close> is \<open>UNIQUE\<close>, so a
  second row for the same id is refused by SQLite.
\<close>

definition createSession ::
  "(time \<Rightarrow> string) \<Rightarrow> time \<Rightarrow> string \<Rightarrow> db_error option \<Rightarrow> sid \<Rightarrow> string \<Rightarrow> database
     \<Rightarrow> created_session promise \<times> database" where
  "createSession toISOString now current_timestamp err sessionId' moUsername db =
     (let expiresAt' = now + 30 * 60 * 1000 in
      case err of
        Some e \<Rightarrow> (Rejected e, db)
      | None \<Rightarrow>
          if sessionId' \<in> set (map cs_session_id (capture_sessions db))
          then (Rejected SQLITE_CONSTRAINT, db)
          else
            (let lastID = capture_sessions_seq db + 1 in
             (Resolved \<lparr>created_id = lastID, sessionId = sessionId', expiresAt = expiresAt'\<rparr>,
              db\<lparr>capture_sessions := capture_sessions db @
                   [\<lparr>cs_id = lastID, cs_session_id = sessionId', mo_username = moUsername,
                     cs_created_at = current_timestamp, expires_at = toISOString expiresAt',
                     cs_status = ''active''\<rparr>],
                 capture_sessions_seq := lastID\<rparr>)))"

record capture_result =
  captured_id :: nat
  captured_status :: string

text \<open>
  \<open>captureData(sessionId, phoneNumber, safetyCode)\<close>, lines 99-114: two encryptions, each with
  random bytes of its own, and one \<open>INSERT\<close>. The method reads no table. The schema declares
  \<open>FOREIGN KEY (session_id) REFERENCES capture_sessions(session_id)\<close>, but the connection
  never issues \<open>PRAGMA foreign_keys = ON\<close>, and SQLite enforces no foreign key without it.
\<close>

definition captureData ::
  "aes_gcm \<Rightarrow> byte list \<Rightarrow> byte list \<Rightarrow> string \<Rightarrow> db_error option \<Rightarrow> sid \<Rightarrow> string \<Rightarrow> string
     \<Rightarrow> database \<Rightarrow> capture_result promise \<times> database" where
  "captureData g iv1 iv2 current_timestamp err sessionId' phoneNumber safetyCode db =
     (let encryptedPhone = encrypt g iv1 phoneNumber;
          encryptedCode = encrypt g iv2 safetyCode
      in case err of
        Some e \<Rightarrow> (Rejected e, db)
      | None \<Rightarrow>
          (let lastID = captured_data_seq db + 1 in
           (Resolved \<lparr>captured_id = lastID, captured_status = ''captured''\<rparr>,
            db\<lparr>captured_data := captured_data db @
                 [\<lparr>cd_id = lastID, cd_session_id = sessionId', encrypted_phone = encryptedPhone,
                   encrypted_safety_code = encryptedCode, cd_created_at = current_timestamp,
                   cd_status = ''new''\<rparr>],
               captured_data_seq := lastID\<rparr>)))"

record reading =
  reading_id :: nat
  phoneNumber :: string
  safetyCode :: string
  createdAt :: string

text \<open>
  The \<open>SELECT\<close> of \<open>getSessionData\<close>, lines 118-122: the join of the two tables on
  \<open>session_id\<close>, filtered. \<open>expires_at\<close> holds the text \<open>toISOString\<close> wrote and
  \<open>datetime('now')\<close> is text as well, so \<open>cs.expires_at > datetime('now')\<close> compares two
  texts byte by byte. The query has no \<open>ORDER BY\<close>; the rows are taken in the order of
  \<open>captured_data\<close>.
\<close>

definition select_active :: "string \<Rightarrow> sid \<Rightarrow> string \<Rightarrow> database \<Rightarrow> captured list" where
  "select_active datetime_now sessionId' moUsername db =
     concat (map (\<lambda>cd. concat (map (\<lambda>cs.
         if cd_session_id cd = cs_session_id cs \<and> cd_session_id cd = sessionId'
            \<and> mo_username cs = moUsername \<and> cd_status cd = ''new''
            \<and> datetime_now < expires_at cs
         then [cd] else []) (capture_sessions db))) (captured_data db))"

text \<open>
  The \<open>rows.map\<close> of lines 131-136. \<open>decrypt\<close> throws inside the arrow function, so the
  first field that fails ends the whole map; the phone is decrypted before the code.
\<close>

fun decrypt_rows :: "aes_gcm \<Rightarrow> captured list \<Rightarrow> crypto_error + reading list" where
  "decrypt_rows g [] = Inr []"
| "decrypt_rows g (row # rows) =
     (case decrypt g (encrypted_phone row) of
        Inl e \<Rightarrow> Inl e
      | Inr phone \<Rightarrow>
          (case decrypt g (encrypted_safety_code row) of
             Inl e \<Rightarrow> Inl e
           | Inr code \<Rightarrow>
               (case decrypt_rows g rows of
                  Inl e \<Rightarrow> Inl e
                | Inr rs \<Rightarrow>
                    Inr (\<lparr>reading_id = cd_id row, phoneNumber = phone, safetyCode = code,
                          createdAt = cd_created_at row\<rparr> # rs))))"

text \<open>
  \<open>getSessionData(sessionId, moUsername)\<close>, lines 116-141. The map runs inside the callback
  of \<open>db.all\<close>; an exception of \<open>decrypt\<close> leaves that callback without \<open>resolve\<close> or
  \<open>reject\<close> having been called.
\<close>

definition getSessionData ::
  "aes_gcm \<Rightarrow> string \<Rightarrow> db_error option \<Rightarrow> sid \<Rightarrow> string \<Rightarrow> database \<Rightarrow> reading list promise" where
  "getSessionData g datetime_now err sessionId' moUsername db =
     (case err of
        Some e \<Rightarrow> Rejected e
      | None \<Rightarrow>
          (case decrypt_rows g (select_active datetime_now sessionId' moUsername db) of
             Inl e \<Rightarrow> Thrown e
           | Inr decrypted \<Rightarrow> Resolved decrypted))"

text \<open>
  \<open>markAsSent(sessionId, phoneNumber)\<close>, lines 143-157: the phone number is encrypted again,
  with new random bytes, and the \<open>UPDATE\<close> selects the rows whose stored envelope equals the
  new one. \<open>this.changes\<close> is the number of rows the \<open>UPDATE\<close> selected.
\<close>

definition markAsSent ::
  "aes_gcm \<Rightarrow> byte list \<Rightarrow> db_error option \<Rightarrow> sid \<Rightarrow> string \<Rightarrow> database \<Rightarrow> nat promise \<times> database" where
  "markAsSent g iv err sessionId' phoneNumber' db =
     (let encryptedPhone = encrypt g iv phoneNumber' in
      case err of
        Some e \<Rightarrow> (Rejected e, db)
      | None \<Rightarrow>
          (Resolved (length (filter (\<lambda>r. cd_session_id r = sessionId' \<and> encrypted_phone r = encryptedPhone)
                       (captured_data db))),
           db\<lparr>captured_data :=
                map (\<lambda>r. if cd_session_id r = sessionId' \<and> encrypted_phone r = encryptedPhone
                          then r\<lparr>cd_status := ''sent''\<rparr> else r)
                    (captured_data db)\<rparr>))"

text \<open>
  \<open>cleanupExpired()\<close>, lines 177-185: two deletes, run every five minutes, each with a
  \<open>datetime('now')\<close> of its own; neither has a callback, so their errors go nowhere. Both
  compare texts, as the \<open>SELECT\<close> above does. The two \<open>db.run\<close> calls are issued one after the
  other without \<open>db.serialize\<close>, so the database may run either first (\<open>sessions_first\<close>); when
  the session rows go first, the subquery of the other delete no longer finds them.
\<close>

definition delete_expired_data :: "string \<Rightarrow> database \<Rightarrow> database" where
  "delete_expired_data datetime_now db =
     (let gone = map cs_session_id
                   (filter (\<lambda>cs. expires_at cs < datetime_now) (capture_sessions db)) in
      db\<lparr>captured_data := filter (\<lambda>cd. cd_session_id cd \<notin> set gone) (captured_data db)\<rparr>)"

definition delete_expired_sessions :: "string \<Rightarrow> database \<Rightarrow> database" where
  "delete_expired_sessions datetime_now db =
     db\<lparr>capture_sessions := filter (\<lambda>cs. \<not> expires_at cs < datetime_now) (capture_sessions db)\<rparr>"

definition cleanupExpired :: "bool \<Rightarrow> string \<Rightarrow> string \<Rightarrow> database \<Rightarrow> database" where
  "cleanupExpired sessions_first datetime_now1 datetime_now2 db =
     (if sessions_first
      then delete_expired_data datetime_now1 (delete_expired_sessions datetime_now2 db)
      else delete_expired_sessions datetime_now2 (delete_expired_data datetime_now1 db))"

text \<open>
  \<open>endSession(sessionId)\<close>, lines 187-208: the records are deleted first and, in the callback
  of that delete, the session row. \<open>err1\<close> and \<open>err2\<close> are the errors of the two deletes.
\<close>

definition endSession ::
  "db_error option \<Rightarrow> db_error option \<Rightarrow> sid \<Rightarrow> database \<Rightarrow> bool promise \<times> database" where
  "endSession err1 err2 sessionId' db =
     (case err1 of
        Some e \<Rightarrow> (Rejected e, db)
      | None \<Rightarrow>
          (let db1 = db\<lparr>captured_data := filter (\<lambda>cd. cd_session_id cd \<noteq> sessionId') (captured_data db)\<rparr> in
           case err2 of
             Some e \<Rightarrow> (Rejected e, db1)
           | None \<Rightarrow>
               (Resolved True,
                db1\<lparr>capture_sessions :=
                      filter (\<lambda>cs. cs_session_id cs \<noteq> sessionId') (capture_sessions db1)\<rparr>)))"

text \<open>
  A small cipher with the interface of \<open>aes_gcm\<close>, for evaluating the store on concrete
  tables: the ciphertext is the reversed text, the tag is the iv followed by the length.
\<close>

definition rev_cipher :: aes_gcm where
  "rev_cipher =
     \<lparr>seal = (\<lambda>iv text. (map (\<lambda>c. of_nat (of_char c)) (rev text), iv @ [of_nat (length text)])),
      unseal = (\<lambda>iv tag ct. if tag = iv @ [of_nat (length ct)]
                             then Some (rev (map (\<lambda>b. char_of (unat b)) ct)) else None)\<rparr>"

definition empty_db :: database where
  "empty_db = \<lparr>capture_sessions = [], captured_data = [], capture_sessions_seq = 0, captured_data_seq = 0\<rparr>"

definition iv_a :: "byte list" where
  "iv_a = replicate 16 0"

definition iv_b :: "byte list" where
  "iv_b = replicate 16 1"

text \<open>
  Example tables. \<open>store_live\<close> is the store after a login of \<open>demo.operator\<close> at
  2026-11-02T10:00:00Z (\<open>Date.now() = 1793613600000\<close>) under session id 2; \<open>store_one\<close> adds one
  capture; in \<open>store_tampered\<close> the tag of the captured phone number was replaced.
\<close>

definition store_live :: database where
  "store_live =
     \<lparr>capture_sessions =
        [\<lparr>cs_id = 1, cs_session_id = 2, mo_username = ''demo.operator'',
          cs_created_at = ''2026-11-02 10:00:00'', expires_at = ''2026-11-02T10:30:00.000Z'',
          cs_status = ''active''\<rparr>],
      captured_data = [], capture_sessions_seq = 1, captured_data_seq = 0\<rparr>"

definition store_one :: database where
  "store_one = snd (captureData rev_cipher iv_a iv_b ''2026-11-02 10:00:00'' None 2
                      ''+15551234567'' ''ABC123'' store_live)"

definition store_tampered :: database where
  "store_tampered =
     store_live\<lparr>captured_data :=
       [\<lparr>cd_id = 1, cd_session_id = 2,
         encrypted_phone = toHex iv_a @ '':'' @ toHex (iv_b @ [12]) @ '':''
                             @ toHex (fst (seal rev_cipher iv_a ''+15551234567'')),
         encrypted_safety_code = encrypt rev_cipher iv_b ''ABC123'',
         cd_created_at = ''2026-11-02 10:00:00'', cd_status = ''new''\<rparr>]\<rparr>"

section \<open>Credentials, sessions and the guard (middleware/auth, routes/auth)\<close>

text \<open>
  What the middleware obtains from its environment is again an explicit argument:
  \<^item> \<open>bcrypt.compare\<close> (\<open>bcrypt_compare password hash\<close>);
  \<^item> the clock. A request reads it three times: when the session store looks the session up
    (\<open>arrive\<close>), in the guard and the handler (\<open>now\<close>: the readings of \<open>Date.now()\<close> that the
    guard and a handler take within one request are the same instant), and when the response
    ends and the session is written back (\<open>fin\<close>);
  \<^item> the \<open>err\<close> argument of the session store's callbacks (\<open>regen_err\<close>, \<open>destroy_err\<close>).
  Session identifiers are drawn by express-session from a random source; the model draws them
  from a counter (\<open>next_sid\<close>), so no identifier is issued twice.
\<close>

subsection \<open>Credential validator\<close>

record credential =
  username :: string
  passwordHash :: string
  role :: string
  allowedSessions :: nat

definition MO_USERS :: "credential list" where
  "MO_USERS =
     [\<lparr>username = ''demo.admin'', passwordHash = ''$2b$10$YourHashedPasswordHere'',
       role = ''admin'', allowedSessions = 5\<rparr>,
      \<lparr>username = ''demo.operator'', passwordHash = ''$2b$10$YourHashedPasswordHere'',
       role = ''operator'', allowedSessions = 3\<rparr>]"

text \<open>
  \<open>validateMOCredentials(username, password)\<close>, lines 30-37. The second component of the
  result lists the calls of \<open>bcrypt.compare\<close> the function made, each with its two arguments.
\<close>

definition validateMOCredentials ::
  "(string \<Rightarrow> string \<Rightarrow> bool) \<Rightarrow> string \<Rightarrow> string \<Rightarrow> credential option \<times> (string \<times> string) list" where
  "validateMOCredentials bcrypt_compare uname password =
     (case find (\<lambda>u. username u = uname) MO_USERS of
        None \<Rightarrow> (None, [])
      | Some user \<Rightarrow>
          (if bcrypt_compare password (passwordHash user) then Some user else None,
           [(password, passwordHash user)]))"

subsection \<open>Sessions\<close>

record mo_user =
  mu_username :: string
  mu_role :: string
  sessionStart :: time

record session =
  moUser :: "mo_user option"
  demoSessionId :: "sid option"
  lastActivity :: "time option"
  lastRegenerated :: "time option"

definition empty_session :: session where
  "empty_session = \<lparr>moUser = None, demoSessionId = None, lastActivity = None, lastRegenerated = None\<rparr>"

record active_session =
  as_username :: string
  as_sessionId :: sid
  startedAt :: time
  ip :: string
  userAgent :: string

text \<open>
  The server's state. \<open>sessions\<close> and \<open>expired\<close> are the table of the session store that app.js
  configures (connect-sqlite3, one row per \<open>sid\<close>), column by column: the stored session and
  the instant after which the store no longer returns it; \<open>expired\<close> is read only where
  \<open>sessions\<close> has a row. \<open>next_sid\<close> is the supply of identifiers, \<open>activeSessions\<close> the map of
  middleware/auth (a JavaScript \<open>Map\<close>, in insertion order), \<open>store\<close> the capture store.
\<close>

record state =
  sessions :: "sid \<Rightarrow> session option"
  expired :: "sid \<Rightarrow> time"
  next_sid :: sid
  activeSessions :: "(sid \<times> active_session) list"
  store :: database

text \<open>\<open>cookie.maxAge\<close> of the session configuration in app.js.\<close>

definition maxAge :: time where
  "maxAge = 30 * 60 * 1000"

text \<open>
  The session store. \<open>get\<close> returns the row of \<open>sid\<close> unless its \<open>expired\<close> has passed, and
  leaves a row that has expired where it is; \<open>set\<close> writes the session and lets it expire
  \<open>maxAge\<close> after the writing; \<open>touch\<close> moves the expiry of a row that has not expired yet;
  the store's own cleanup (at start and then once a day) deletes the rows that have expired.
\<close>

definition store_get :: "time \<Rightarrow> sid \<Rightarrow> state \<Rightarrow> session option" where
  "store_get t k st =
     (case sessions st k of
        None \<Rightarrow> None
      | Some sess \<Rightarrow> if t \<le> expired st k then Some sess else None)"

definition store_set :: "time \<Rightarrow> sid \<Rightarrow> session \<Rightarrow> state \<Rightarrow> state" where
  "store_set t k sess st =
     st\<lparr>sessions := (sessions st)(k \<mapsto> sess), expired := (expired st)(k := t + maxAge)\<rparr>"

definition store_touch :: "time \<Rightarrow> sid \<Rightarrow> state \<Rightarrow> state" where
  "store_touch t k st =
     (if sessions st k \<noteq> None \<and> t \<le> expired st k
      then st\<lparr>expired := (expired st)(k := t + maxAge)\<rparr> else st)"

definition store_cleanup :: "time \<Rightarrow> state \<Rightarrow> state" where
  "store_cleanup t st =
     st\<lparr>sessions := (\<lambda>k. case sessions st k of
                             None \<Rightarrow> None
                           | Some sess \<Rightarrow> if expired st k < t then None else Some sess)\<rparr>"

text \<open>
  A request as the handlers see it, \<open>req.sessionID\<close> and \<open>req.session\<close> (absent once
  destroyed), and what express-session remembers of its start: \<open>originalId\<close>, the identifier
  the request started with, and \<open>loaded\<close>, the session the store returned for the cookie
  (\<open>None\<close> when it returned nothing and a session was generated).
\<close>

record request =
  sessionID :: sid
  req_session :: "session option"
  originalId :: sid
  loaded :: "session option"

text \<open>
  express-session, configured with \<open>resave: false\<close>, \<open>saveUninitialized: false\<close> and
  \<open>rolling: true\<close>. At the start of a request the session named by the cookie is fetched from
  the store; with no cookie, or when the store returns nothing, a new empty session with a new
  identifier is generated. When the response ends, a session is written with \<open>set\<close> under
  \<open>req.sessionID\<close> if it is modified: if its identifier is no longer the one the request
  started with, or if its content differs from what was loaded (from the empty session, when
  nothing was loaded). A loaded session that is not modified is touched; a generated one that
  is not modified is dropped (a generated identifier is new, so it is never the one the cookie
  named). \<open>destroy\<close> deletes the stored session and \<open>req.session\<close>;
  \<open>regenerate\<close> deletes the stored session and generates a new one, without changing what
  express-session remembers of the request's start. When the store's delete fails (\<open>err\<close>),
  the stored session stays.
\<close>

definition session_generate :: "state \<Rightarrow> request \<times> state" where
  "session_generate st =
     (\<lparr>sessionID = next_sid st, req_session = Some empty_session, originalId = next_sid st,
       loaded = None\<rparr>,
      st\<lparr>next_sid := Suc (next_sid st)\<rparr>)"

definition session_begin :: "time \<Rightarrow> sid option \<Rightarrow> state \<Rightarrow> request \<times> state" where
  "session_begin arrive cookie st =
     (case cookie of
        None \<Rightarrow> session_generate st
      | Some c \<Rightarrow>
          (case store_get arrive c st of
             None \<Rightarrow> session_generate st
           | Some sess \<Rightarrow>
               (\<lparr>sessionID = c, req_session = Some sess, originalId = c, loaded = Some sess\<rparr>, st)))"

definition isModified :: "request \<Rightarrow> session \<Rightarrow> bool" where
  "isModified r sess \<longleftrightarrow>
     originalId r \<noteq> sessionID r
     \<or> sess \<noteq> (case loaded r of None \<Rightarrow> empty_session | Some saved \<Rightarrow> saved)"

definition session_end :: "time \<Rightarrow> request \<times> state \<Rightarrow> state" where
  "session_end fin rs =
     (case rs of (r, st) \<Rightarrow>
        (case req_session r of
           None \<Rightarrow> st
         | Some sess \<Rightarrow>
             if isModified r sess then store_set fin (sessionID r) sess st
             else if loaded r \<noteq> None then store_touch fin (sessionID r) st
             else st))"

definition session_destroy :: "bool \<Rightarrow> request \<times> state \<Rightarrow> request \<times> state" where
  "session_destroy err rs =
     (case rs of (r, st) \<Rightarrow>
        (r\<lparr>req_session := None\<rparr>,
         if err then st else st\<lparr>sessions := (sessions st)(sessionID r := None)\<rparr>))"

definition session_regenerate :: "bool \<Rightarrow> request \<times> state \<Rightarrow> request \<times> state" where
  "session_regenerate err rs =
     (case rs of (r, st) \<Rightarrow>
        (r\<lparr>sessionID := next_sid st, req_session := Some empty_session\<rparr>,
         st\<lparr>sessions := (if err then sessions st else (sessions st)(sessionID r := None)),
            next_sid := Suc (next_sid st)\<rparr>))"

subsection \<open>The guard\<close>

text \<open>
  JavaScript truthiness of a timestamp field: \<open>undefined\<close> and \<open>0\<close> are falsy. A difference
  with \<open>undefined\<close> is \<open>NaN\<close>, which is greater than nothing.
\<close>

definition truthy :: "time option \<Rightarrow> bool" where
  "truthy v = (case v of None \<Rightarrow> False | Some t \<Rightarrow> t \<noteq> 0)"

definition elapsed_over :: "time \<Rightarrow> time option \<Rightarrow> time \<Rightarrow> bool" where
  "elapsed_over now v limit = (case v of None \<Rightarrow> False | Some t \<Rightarrow> now - t > limit)"

definition MAX_IDLE :: time where
  "MAX_IDLE = 30 * 60 * 1000"

datatype guard_result = AUTH_REQUIRED | SESSION_EXPIRED | NEXT_ERR | NEXT

text \<open>
  \<open>requireAuth\<close>, lines 42-80. \<open>AUTH_REQUIRED\<close> and \<open>SESSION_EXPIRED\<close> are the two 401 answers,
  \<open>NEXT\<close> is \<open>next()\<close> and \<open>NEXT_ERR\<close> is \<open>next(err)\<close>. \<open>req.session.destroy()\<close> is called without
  a callback, so an error of the store is not seen; the delete is taken to succeed.
  \<open>Object.assign(req.session, oldSession)\<close> copies every field of the old session, the new
  \<open>lastActivity\<close> included, onto the regenerated one.
\<close>

definition requireAuth :: "time \<Rightarrow> bool \<Rightarrow> request \<times> state \<Rightarrow> guard_result \<times> request \<times> state" where
  "requireAuth now regen_err rs =
     (case rs of (r, st) \<Rightarrow>
        (case req_session r of
           None \<Rightarrow> (AUTH_REQUIRED, r, st)
         | Some sess \<Rightarrow>
             (case moUser sess of
                None \<Rightarrow> (AUTH_REQUIRED, r, st)
              | Some u \<Rightarrow>
                  if truthy (lastActivity sess) \<and> elapsed_over now (lastActivity sess) MAX_IDLE
                  then (case session_destroy False (r, st) of (r', st') \<Rightarrow> (SESSION_EXPIRED, r', st'))
                  else
                    (let sess1 = sess\<lparr>lastActivity := Some now\<rparr> in
                     if \<not> truthy (lastRegenerated sess1)
                        \<or> elapsed_over now (lastRegenerated sess1) (15 * 60 * 1000)
                     then
                       (case session_regenerate regen_err (r\<lparr>req_session := Some sess1\<rparr>, st) of
                          (r', st') \<Rightarrow>
                            if regen_err then (NEXT_ERR, r', st')
                            else (NEXT, r'\<lparr>req_session := Some (sess1\<lparr>lastRegenerated := Some now\<rparr>)\<rparr>, st'))
                     else (NEXT, r\<lparr>req_session := Some sess1\<rparr>, st)))))"

datatype admission = MAX_SESSIONS | ADMITTED

text \<open>
  \<open>checkConcurrentSessions\<close>, lines 85-110. \<open>activeSessions.set\<close> replaces the entry of a key
  that is present and appends otherwise. The middleware is exported by middleware/auth; no
  route of the repository mounts it.
\<close>

definition checkConcurrentSessions ::
  "time \<Rightarrow> string \<Rightarrow> string \<Rightarrow> request \<times> state \<Rightarrow> admission \<times> state" where
  "checkConcurrentSessions now req_ip req_user_agent rs =
     (case rs of (r, st) \<Rightarrow>
        (case (case req_session r of None \<Rightarrow> None | Some sess \<Rightarrow> map_option mu_username (moUser sess)) of
           None \<Rightarrow> (ADMITTED, st)
         | Some uname \<Rightarrow>
             if uname = [] then (ADMITTED, st)
             else
               (let userSessions = filter (\<lambda>s. as_username s = uname \<and> as_sessionId s \<noteq> sessionID r)
                                     (map snd (activeSessions st));
                    user = find (\<lambda>u. username u = uname) MO_USERS
                in if (case user of None \<Rightarrow> False | Some u \<Rightarrow> length userSessions \<ge> allowedSessions u)
                   then (MAX_SESSIONS, st)
                   else (ADMITTED,
                         st\<lparr>activeSessions := AList.update (sessionID r)
                              \<lparr>as_username = uname, as_sessionId = sessionID r, startedAt = now,
                               ip = req_ip, userAgent = req_user_agent\<rparr> (activeSessions st)\<rparr>))))"

subsection \<open>Routes\<close>

datatype response =
    Auth_required | Session_expired | Internal_server_error
  | Login_success | Auth_failed | Session_creation_failed | Authentication_system_error
  | Logout_success | Logout_failed | Logout_error
  | Handler_ran | No_response

text \<open>
  The handler of \<open>POST /login\<close>, lines 16-74 of routes/auth, reached once the rate limiter and
  \<open>loginValidation\<close> have let the request pass. It calls \<open>validateMOCredentials\<close>,
  \<open>req.session.regenerate\<close> and \<open>SessionData.createSession\<close>, and nothing of
  \<open>activeSessions\<close>. The callback of \<open>regenerate\<close> is an \<open>async\<close> function outside the
  \<open>try\<close>: when \<open>createSession\<close> rejects, no response is sent (\<open>No_response\<close>).
\<close>

definition login_handler ::
  "(string \<Rightarrow> string \<Rightarrow> bool) \<Rightarrow> (time \<Rightarrow> string) \<Rightarrow> time \<Rightarrow> string \<Rightarrow> bool \<Rightarrow> db_error option
     \<Rightarrow> string \<Rightarrow> string \<Rightarrow> request \<times> state \<Rightarrow> response \<times> request \<times> state" where
  "login_handler bcrypt_compare toISOString now current_timestamp regen_err db_err uname password rs =
     (case rs of (r, st) \<Rightarrow>
        (case fst (validateMOCredentials bcrypt_compare uname password) of
           None \<Rightarrow> (Auth_failed, r, st)
         | Some user \<Rightarrow>
             (case req_session r of
                None \<Rightarrow> (Authentication_system_error, r, st)
              | Some old \<Rightarrow>
                  (case session_regenerate regen_err (r, st) of
                     (r1, st1) \<Rightarrow>
                       if regen_err then (Session_creation_failed, r1, st1)
                       else
                         (case createSession toISOString now current_timestamp db_err
                                 (sessionID r1) uname (store st1) of
                            (Resolved demoSession, db') \<Rightarrow>
                              (Login_success,
                               r1\<lparr>req_session := map_option (\<lambda>sess. sess
                                     \<lparr>moUser := Some \<lparr>mu_username = username user, mu_role = role user,
                                                      sessionStart = now\<rparr>,
                                      demoSessionId := Some (sessionId demoSession),
                                      lastActivity := Some now,
                                      lastRegenerated := Some now\<rparr>) (req_session r1)\<rparr>,
                               st1\<lparr>store := db'\<rparr>)
                          | (_, db') \<Rightarrow> (No_response, r1, st1\<lparr>store := db'\<rparr>))))))"

text \<open>
  The handler of \<open>POST /logout\<close>, lines 79-106, run after \<open>requireAuth\<close> called \<open>next()\<close>.
  \<open>endSession\<close> is awaited inside the \<open>try\<close>; its rejection is answered \<open>Logout error\<close>
  before anything else is touched.
\<close>

definition logout_handler ::
  "db_error option \<Rightarrow> db_error option \<Rightarrow> bool \<Rightarrow> request \<times> state \<Rightarrow> response \<times> request \<times> state" where
  "logout_handler err1 err2 destroy_err rs =
     (case rs of (r, st) \<Rightarrow>
        (case req_session r of
           None \<Rightarrow> (Logout_error, r, st)
         | Some sess \<Rightarrow>
             (let purge = (case demoSessionId sess of
                             None \<Rightarrow> (Resolved True, store st)
                           | Some d \<Rightarrow> endSession err1 err2 d (store st))
              in case purge of
                   (Resolved purged, db') \<Rightarrow>
                     (case session_destroy destroy_err
                             (r, st\<lparr>store := db',
                                    activeSessions := AList.delete (sessionID r) (activeSessions st)\<rparr>) of
                        (r', st') \<Rightarrow> (if destroy_err then Logout_failed else Logout_success, r', st'))
                 | (_, db') \<Rightarrow> (Logout_error, r, st\<lparr>store := db'\<rparr>))))"

definition guard_response :: "guard_result \<Rightarrow> response" where
  "guard_response g =
     (case g of AUTH_REQUIRED \<Rightarrow> Auth_required | SESSION_EXPIRED \<Rightarrow> Session_expired
      | NEXT_ERR \<Rightarrow> Internal_server_error | NEXT \<Rightarrow> Handler_ran)"

text \<open>
  Whole requests, each handled from its arrival to the end of its response before the next one
  arrives: the session is loaded at \<open>arrive\<close>, the route's middleware and handler run at
  \<open>now\<close>, the session is written back at \<open>fin\<close>, when the response ends. A request that never
  gets a response writes nothing. \<open>guarded_route\<close> is any other route behind \<open>requireAuth\<close>
  (\<open>/status\<close>, \<open>/api/capture\<close>, \<open>/api/messaging/send\<close>): its handler does not touch
  \<open>req.session\<close>, and \<open>h\<close> is what it does to the capture store. \<open>unguarded_route\<close> is a route
  without \<open>requireAuth\<close> (\<open>/api/csrf-token\<close>, \<open>/health\<close>, a page of the client).
\<close>

definition login_route ::
  "(string \<Rightarrow> string \<Rightarrow> bool) \<Rightarrow> (time \<Rightarrow> string) \<Rightarrow> sid option \<Rightarrow> time \<Rightarrow> time \<Rightarrow> time \<Rightarrow> string
     \<Rightarrow> bool \<Rightarrow> db_error option \<Rightarrow> string \<Rightarrow> string \<Rightarrow> state \<Rightarrow> response \<times> state" where
  "login_route bcrypt_compare toISOString cookie arrive now fin current_timestamp regen_err db_err
       uname password st =
     (case login_handler bcrypt_compare toISOString now current_timestamp regen_err db_err uname password
             (session_begin arrive cookie st) of
        (resp, r, st') \<Rightarrow> (resp, if resp = No_response then st' else session_end fin (r, st')))"

definition logout_route ::
  "sid option \<Rightarrow> time \<Rightarrow> time \<Rightarrow> time \<Rightarrow> bool \<Rightarrow> db_error option \<Rightarrow> db_error option \<Rightarrow> bool \<Rightarrow> state
     \<Rightarrow> response \<times> state" where
  "logout_route cookie arrive now fin regen_err err1 err2 destroy_err st =
     (case requireAuth now regen_err (session_begin arrive cookie st) of
        (NEXT, r, st1) \<Rightarrow>
          (case logout_handler err1 err2 destroy_err (r, st1) of
             (resp, r', st') \<Rightarrow> (resp, session_end fin (r', st')))
      | (g, r, st1) \<Rightarrow> (guard_response g, session_end fin (r, st1)))"

definition guarded_route ::
  "sid option \<Rightarrow> time \<Rightarrow> time \<Rightarrow> time \<Rightarrow> bool \<Rightarrow> (database \<Rightarrow> database) \<Rightarrow> state \<Rightarrow> response \<times> state" where
  "guarded_route cookie arrive now fin regen_err h st =
     (case requireAuth now regen_err (session_begin arrive cookie st) of
        (NEXT, r, st1) \<Rightarrow> (Handler_ran, session_end fin (r, st1\<lparr>store := h (store st1)\<rparr>))
      | (g, r, st1) \<Rightarrow> (guard_response g, session_end fin (r, st1)))"

definition unguarded_route :: "sid option \<Rightarrow> time \<Rightarrow> time \<Rightarrow> state \<Rightarrow> response \<times> state" where
  "unguarded_route cookie arrive fin st = (Handler_ran, session_end fin (session_begin arrive cookie st))"


text \<open>
  What happens to the server, one event at a time: the four kinds of request, the sweep of the
  capture store and the cleanup of the session store.
\<close>

datatype event =
    Login "sid option" time time time string bool "db_error option" string string
  | Logout "sid option" time time time bool "db_error option" "db_error option" bool
  | Guarded "sid option" time time time bool "database \<Rightarrow> database"
  | Unguarded "sid option" time time
  | Sweep bool string string
  | Cleanup time

fun step :: "(string \<Rightarrow> string \<Rightarrow> bool) \<Rightarrow> (time \<Rightarrow> string) \<Rightarrow> event \<Rightarrow> state \<Rightarrow> response \<times> state" where
  "step bcrypt_compare toISOString (Login cookie arrive now fin ts regen_err db_err uname password) st =
     login_route bcrypt_compare toISOString cookie arrive now fin ts regen_err db_err uname password st"
| "step bcrypt_compare toISOString (Logout cookie arrive now fin regen_err err1 err2 destroy_err) st =
     logout_route cookie arrive now fin regen_err err1 err2 destroy_err st"
| "step bcrypt_compare toISOString (Guarded cookie arrive now fin regen_err h) st =
     guarded_route cookie arrive now fin regen_err h st"
| "step bcrypt_compare toISOString (Unguarded cookie arrive fin) st = unguarded_route cookie arrive fin st"
| "step bcrypt_compare toISOString (Sweep sessions_first datetime_now1 datetime_now2) st =
     (Handler_ran, st\<lparr>store := cleanupExpired sessions_first datetime_now1 datetime_now2 (store st)\<rparr>)"
| "step bcrypt_compare toISOString (Cleanup t) st = (Handler_ran, store_cleanup t st)"

fun run :: "(string \<Rightarrow> string \<Rightarrow> bool) \<Rightarrow> (time \<Rightarrow> string) \<Rightarrow> event list \<Rightarrow> state \<Rightarrow> state" where
  "run bcrypt_compare toISOString [] st = st"
| "run bcrypt_compare toISOString (e # es) st =
     run bcrypt_compare toISOString es (snd (step bcrypt_compare toISOString e st))"

fun responses :: "(string \<Rightarrow> string \<Rightarrow> bool) \<Rightarrow> (time \<Rightarrow> string) \<Rightarrow> event list \<Rightarrow> state \<Rightarrow> response list" where
  "responses bcrypt_compare toISOString [] st = []"
| "responses bcrypt_compare toISOString (e # es) st =
     fst (step bcrypt_compare toISOString e st)
       # responses bcrypt_compare toISOString es (snd (step bcrypt_compare toISOString e st))"

text \<open>\<open>not_before T ev\<close>: a request that arrives at \<open>T\<close> or later; any sweep or cleanup.\<close>

fun not_before :: "time \<Rightarrow> event \<Rightarrow> bool" where
  "not_before T (Login cookie arrive now fin ts regen_err db_err uname password) = (T \<le> arrive)"
| "not_before T (Logout cookie arrive now fin regen_err err1 err2 destroy_err) = (T \<le> arrive)"
| "not_before T (Guarded cookie arrive now fin regen_err h) = (T \<le> arrive)"
| "not_before T (Unguarded cookie arrive fin) = (T \<le> arrive)"
| "not_before T (Sweep sessions_first datetime_now1 datetime_now2) = True"
| "not_before T (Cleanup t) = True"

definition initial :: state where
  "initial = \<lparr>sessions = Map.empty, expired = (\<lambda>k. 0), next_sid = 0, activeSessions = [],
              store = empty_db\<rparr>"

section \<open>Invariants of the session store\<close>

text \<open>
  \<open>same_login a b\<close>: the two sessions carry the same claims and belong to the same login
  (\<open>demoSessionId\<close> is the identifier the login was given, and it stays with the session
  through every rotation). \<open>session_step st st'\<close> is what one request can do to the session
  store: a stored session keeps its identifier and its login or is deleted, and at most one new
  identifier comes into use, holding an empty session, a new login, or the session of an
  identifier that was deleted in the same step. \<open>expiry_kept T st st'\<close>: the expiry of an
  identifier that was issued before the step changes only if its row had not expired at \<open>T\<close>.
\<close>

definition same_login :: "session \<Rightarrow> session \<Rightarrow> bool" where
  "same_login a b \<longleftrightarrow> moUser a = moUser b \<and> demoSessionId a = demoSessionId b"

definition session_step :: "state \<Rightarrow> state \<Rightarrow> bool" where
  "session_step st st' \<longleftrightarrow>
     next_sid st \<le> next_sid st'
     \<and> (\<forall>k s1. sessions st' k = Some s1 \<longrightarrow>
          (\<exists>s0. sessions st k = Some s0 \<and> same_login s0 s1)
          \<or> (next_sid st \<le> k \<and> k < next_sid st'
              \<and> (moUser s1 = None \<and> demoSessionId s1 = None
                  \<or> demoSessionId s1 = Some k
                  \<or> (\<exists>k0 s0. sessions st k0 = Some s0 \<and> sessions st' k0 = None \<and> same_login s0 s1))))
     \<and> (\<forall>k k'. next_sid st \<le> k \<and> next_sid st \<le> k' \<and> sessions st' k \<noteq> None \<and> sessions st' k' \<noteq> None
           \<longrightarrow> k = k')"

definition expiry_kept :: "time \<Rightarrow> state \<Rightarrow> state \<Rightarrow> bool" where
  "expiry_kept T st st' \<longleftrightarrow>
     (\<forall>k. k < next_sid st \<and> expired st' k \<noteq> expired st k \<longrightarrow>
        sessions st k \<noteq> None \<and> T \<le> expired st k)"

definition keys_below :: "state \<Rightarrow> bool" where
  "keys_below st \<longleftrightarrow> (\<forall>k. sessions st k \<noteq> None \<longrightarrow> k < next_sid st)"

text \<open>
  \<open>fresh_ids\<close>: every identifier in use was drawn from the supply, and an authenticated session
  knows its login. \<open>one_id_per_login\<close>: no two identifiers hold authenticated sessions of the
  same login. Both hold in \<open>initial\<close> and after every event (\<open>consistent_run\<close>).
  \<open>retired s\<close>: the identifier was issued and names no stored session. \<open>stale T s\<close>: the
  identifier was issued and its row, if there is one, expired before \<open>T\<close>.
\<close>

definition fresh_ids :: "state \<Rightarrow> bool" where
  "fresh_ids st \<longleftrightarrow>
     (\<forall>k sess. sessions st k = Some sess \<longrightarrow>
        k < next_sid st \<and> (\<forall>d. demoSessionId sess = Some d \<longrightarrow> d < next_sid st)
        \<and> (moUser sess \<noteq> None \<longrightarrow> demoSessionId sess \<noteq> None))"

definition one_id_per_login :: "state \<Rightarrow> bool" where
  "one_id_per_login st \<longleftrightarrow>
     (\<forall>a b sa sb. sessions st a = Some sa \<and> sessions st b = Some sb
        \<and> moUser sa \<noteq> None \<and> moUser sb \<noteq> None \<and> demoSessionId sa = demoSessionId sb \<longrightarrow> a = b)"

definition consistent :: "state \<Rightarrow> bool" where
  "consistent st \<longleftrightarrow> fresh_ids st \<and> one_id_per_login st"

definition retired :: "sid \<Rightarrow> state \<Rightarrow> bool" where
  "retired s st \<longleftrightarrow> s < next_sid st \<and> sessions st s = None"

definition stale :: "time \<Rightarrow> sid \<Rightarrow> state \<Rightarrow> bool" where
  "stale T s st \<longleftrightarrow> s < next_sid st \<and> (sessions st s = None \<or> expired st s < T)"

text \<open>
  The \<open>activeSessions\<close> map as \<open>checkConcurrentSessions\<close> builds it: one entry per key, each
  stored under its own session identifier. \<open>sessions_of\<close> counts the entries of an identity.
\<close>

definition registry_ok :: "state \<Rightarrow> bool" where
  "registry_ok st \<longleftrightarrow>
     distinct (map fst (activeSessions st))
     \<and> (\<forall>p \<in> set (activeSessions st). as_sessionId (snd p) = fst p)"

definition sessions_of :: "string \<Rightarrow> state \<Rightarrow> nat" where
  "sessions_of uname st = length (filter (\<lambda>s. as_username s = uname) (map snd (activeSessions st)))"

subsection \<open>Example states\<close>

text \<open>
  \<open>demo_compare\<close> is \<open>bcrypt.compare\<close> for stored hashes of the password \<open>correct-horse\<close>;
  \<open>toISOString_at\<close> gives \<open>toISOString\<close> at the four instants the examples store.
  \<open>st_login\<close> is the server after an anonymous page load and a login of \<open>demo.operator\<close> at
  2026-11-02T10:00:00Z (\<open>st_login_reached\<close>): the session has identifier 2 and the store returns
  it until 10:30:00. In \<open>st_captured\<close> that session has captured one phone number, half a
  second after the login, and in \<open>st_touched\<close> it has then made a request to a route without
  guard at 10:20:00, so that the store returns it until 10:50:00 while \<open>lastActivity\<close> is still
  10:00:00.5 (\<open>st_touched_reached\<close>).
\<close>

definition reject_all :: "string \<Rightarrow> string \<Rightarrow> bool" where
  "reject_all password hash = False"

definition demo_compare :: "string \<Rightarrow> string \<Rightarrow> bool" where
  "demo_compare password hash = (password = ''correct-horse'')"

definition toISOString_at :: "time \<Rightarrow> string" where
  "toISOString_at t =
     (if t = 1793615400000 then ''2026-11-02T10:30:00.000Z''
      else if t = 1793615460000 then ''2026-11-02T10:31:00.000Z''
      else if t = 1793615520000 then ''2026-11-02T10:32:00.000Z''
      else if t = 1793615580000 then ''2026-11-02T10:33:00.000Z''
      else [])"

definition sess_login :: session where
  "sess_login =
     \<lparr>moUser = Some \<lparr>mu_username = ''demo.operator'', mu_role = ''operator'',
                      sessionStart = 1793613600000\<rparr>,
      demoSessionId = Some 2, lastActivity = Some 1793613600000,
      lastRegenerated = Some 1793613600000\<rparr>"

definition sess_unset :: session where
  "sess_unset = sess_login\<lparr>lastActivity := None\<rparr>"

definition st_login :: state where
  "st_login = \<lparr>sessions = Map.empty(2 \<mapsto> sess_login), expired = (\<lambda>k. 0)(2 := 1793615400000),
                next_sid = 3, activeSessions = [], store = store_live\<rparr>"

definition sess_captured :: session where
  "sess_captured = sess_login\<lparr>lastActivity := Some 1793613600500\<rparr>"

definition st_captured :: state where
  "st_captured = \<lparr>sessions = Map.empty(2 \<mapsto> sess_captured), expired = (\<lambda>k. 0)(2 := 1793615400500),
                   next_sid = 3, activeSessions = [], store = store_one\<rparr>"

definition st_touched :: state where
  "st_touched = st_captured\<lparr>expired := (\<lambda>k. 0)(2 := 1793616600000)\<rparr>"

definition login_events :: "event list" where
  "login_events =
     [Unguarded None 1793613540000 1793613540000,
      Login None 1793613600000 1793613600000 1793613600000 ''2026-11-02 10:00:00'' False None
        ''demo.operator'' ''correct-horse'']"

definition capture_events :: "event list" where
  "capture_events =
     [Guarded (Some 2) 1793613600500 1793613600500 1793613600500 False
        (\<lambda>db. snd (captureData rev_cipher iv_a iv_b ''2026-11-02 10:00:00'' None 2
                      ''+15551234567'' ''ABC123'' db)),
      Unguarded (Some 2) 1793614800000 1793614800000]"

definition three_more_logins :: "event list" where
  "three_more_logins =
     [Login None 1793613660000 1793613660000 1793613660000 ''2026-11-02 10:01:00'' False None
        ''demo.operator'' ''correct-horse'',
      Login None 1793613720000 1793613720000 1793613720000 ''2026-11-02 10:02:00'' False None
        ''demo.operator'' ''correct-horse'',
      Login None 1793613780000 1793613780000 1793613780000 ''2026-11-02 10:03:00'' False None
        ''demo.operator'' ''correct-horse'']"

definition authenticated_as :: "state \<Rightarrow> sid \<Rightarrow> string option" where
  "authenticated_as st k =
     (case sessions st k of None \<Rightarrow> None | Some sess \<Rightarrow> map_option mu_username (moUser sess))"

section \<open>Properties of the capture store\<close>

subsection \<open>The envelope\<close>

lemma hexVal_hexDigit: "n < 16 \<Longrightarrow> hexVal (hexDigit n) = Some n"
  by (auto simp: hexVal_def hexDigit_def Let_def)

lemma hexDigit_not_colon: "n < 16 \<Longrightarrow> hexDigit n \<noteq> CHR '':''"
proof
  assume n: "n < 16" and eq: "hexDigit n = CHR '':''"
  then have "(of_char (hexDigit n) :: nat) = 58" by simp
  with n show False by (auto simp: hexDigit_def split: if_splits)
qed

lemma unat_byte_div16: "unat (b :: byte) div 16 < 16"
proof -
  have "unat b < 256" using unsigned_less [of b] by simp
  then show ?thesis by simp
qed

lemma length_toHex: "length (toHex bs) = 2 * length bs"
  by (induction bs) (simp_all add: toHex_def)

lemma fromHex_toHex: "fromHex (toHex bs) = bs"
  by (induction bs) (simp_all add: toHex_def hexVal_hexDigit unat_byte_div16)

lemma colon_notin_toHex: "CHR '':'' \<notin> set (toHex bs)"
proof (induction bs)
  case Nil
  show ?case by (simp add: toHex_def)
next
  case (Cons b bs)
  have "hexDigit (unat b div 16) \<noteq> CHR '':''" "hexDigit (unat b mod 16) \<noteq> CHR '':''"
    by (simp_all add: hexDigit_not_colon unat_byte_div16)
  with Cons show ?case by (auto simp: toHex_def)
qed

lemma split_no_sep: "sep \<notin> set xs \<Longrightarrow> split sep xs = [xs]"
  by (induction xs) auto

lemma split_at_first: "sep \<notin> set xs \<Longrightarrow> split sep (xs @ sep # ys) = xs # split sep ys"
  by (induction xs) auto

lemma split_envelope:
  "split CHR '':'' (toHex a @ CHR '':'' # toHex b @ CHR '':'' # toHex c) = [toHex a, toHex b, toHex c]"
  by (simp add: split_at_first [OF colon_notin_toHex] split_no_sep [OF colon_notin_toHex])

lemma split_encrypt:
  "split CHR '':'' (encrypt g iv text) =
     [toHex iv, toHex (snd (seal g iv text)), toHex (fst (seal g iv text))]"
  by (simp add: encrypt_def split_envelope split: prod.split)

lemma decrypt_encrypt:
  assumes "unseal g iv (snd (seal g iv text)) (fst (seal g iv text)) = Some text"
  shows "decrypt g (encrypt g iv text) = Inr text"
  using assms by (simp add: decrypt_def split_encrypt fromHex_toHex length_toHex)

lemma encrypt_iv_inject:
  assumes "encrypt g iv text = encrypt g iv' text'"
  shows "iv = iv'"
proof -
  from assms have "split CHR '':'' (encrypt g iv text) = split CHR '':'' (encrypt g iv' text')"
    by simp
  then have "toHex iv = toHex iv'" by (simp add: split_encrypt)
  then have "fromHex (toHex iv) = fromHex (toHex iv')" by simp
  then show ?thesis by (simp add: fromHex_toHex)
qed

lemma rev_cipher_unseal_seal:
  "unseal rev_cipher iv (snd (seal rev_cipher iv text)) (fst (seal rev_cipher iv text)) = Some text"
proof -
  have "map (\<lambda>b. char_of (unat b)) (map (\<lambda>c. (of_nat (of_char c) :: byte)) xs) = xs" for xs
    by (induction xs) (simp_all add: unat_of_nat)
  then show ?thesis by (simp add: rev_cipher_def rev_map)
qed

subsection \<open>Capture and mark-as-sent\<close>

text \<open>
  C8. The claim: for a session id with no live capture session, \<open>capture\<close> fails with
  \<open>SessionNotFound\<close> and appends no record. The code: with no database error,
  \<open>captureData\<close> resolves and appends one record with status \<open>new\<close>, whatever
  \<open>capture_sessions\<close> holds; a session row is neither looked up nor required.
\<close>

theorem captureData_never_checks_session:
  "captureData g iv1 iv2 ts None s phone code db =
     (Resolved \<lparr>captured_id = captured_data_seq db + 1, captured_status = ''captured''\<rparr>,
      db\<lparr>captured_data := captured_data db @
           [\<lparr>cd_id = captured_data_seq db + 1, cd_session_id = s,
             encrypted_phone = encrypt g iv1 phone, encrypted_safety_code = encrypt g iv2 code,
             cd_created_at = ts, cd_status = ''new''\<rparr>],
         captured_data_seq := captured_data_seq db + 1\<rparr>)"
  by (simp add: captureData_def Let_def)

lemma iv_a_neq_iv_b: "iv_a \<noteq> iv_b"
  by (simp add: iv_a_def iv_b_def)

text \<open>
  C1. The claim: \<open>markSent\<close> moves every record of the session whose decrypted phone equals
  the given phone from \<open>new\<close> to \<open>sent\<close>, matching by decrypt-and-compare. The code matches on
  the envelope text: when every stored envelope was written under random bytes other than the
  ones \<open>markAsSent\<close> draws now, no row is selected, \<open>changes\<close> is 0 and the store is left as
  it was, also for the rows that hold the given phone number.
\<close>

theorem markAsSent_misses_other_iv:
  assumes "\<forall>r \<in> set (captured_data db). \<exists>iv' text. iv' \<noteq> iv \<and> encrypted_phone r = encrypt g iv' text"
  shows "markAsSent g iv None s phone db = (Resolved 0, db)"
proof -
  have no: "encrypted_phone r \<noteq> encrypt g iv phone" if "r \<in> set (captured_data db)" for r
    using assms that encrypt_iv_inject by metis
  then have "filter (\<lambda>r. cd_session_id r = s \<and> encrypted_phone r = encrypt g iv phone) (captured_data db) = []"
    by (simp add: filter_empty_conv)
  moreover from no have "map (\<lambda>r. if cd_session_id r = s \<and> encrypted_phone r = encrypt g iv phone
                          then r\<lparr>cd_status := ''sent''\<rparr> else r) (captured_data db) = captured_data db"
    by (simp add: map_idI)
  ultimately show ?thesis by (simp add: markAsSent_def)
qed

lemma store_one_rows:
  "captured_data store_one =
     [\<lparr>cd_id = 1, cd_session_id = 2, encrypted_phone = encrypt rev_cipher iv_a ''+15551234567'',
       encrypted_safety_code = encrypt rev_cipher iv_b ''ABC123'',
       cd_created_at = ''2026-11-02 10:00:00'', cd_status = ''new''\<rparr>]"
  by (simp add: store_one_def captureData_def store_live_def Let_def)

text \<open>
  In \<open>store_one\<close> the only record belongs to session 2, holds the phone number asked for and is
  \<open>new\<close>; it stays so.
\<close>

theorem markAsSent_misses_other_iv_witness:
  "map cd_session_id (captured_data store_one) = [2]
   \<and> map (\<lambda>r. decrypt rev_cipher (encrypted_phone r)) (captured_data store_one) = [Inr ''+15551234567'']
   \<and> map cd_status (captured_data store_one) = [''new'']
   \<and> markAsSent rev_cipher iv_b None 2 ''+15551234567'' store_one = (Resolved 0, store_one)"
proof -
  have "\<forall>r \<in> set (captured_data store_one).
          \<exists>iv' text. iv' \<noteq> iv_b \<and> encrypted_phone r = encrypt rev_cipher iv' text"
    using iv_a_neq_iv_b by (auto simp: store_one_rows)
  from markAsSent_misses_other_iv [OF this]
  show ?thesis
    by (simp add: store_one_rows decrypt_encrypt rev_cipher_unseal_seal)
qed

subsection \<open>Reading back\<close>

lemma decrypt_rows_append:
  "decrypt_rows g (xs @ ys) =
     (case decrypt_rows g xs of
        Inl e \<Rightarrow> Inl e
      | Inr rs \<Rightarrow> (case decrypt_rows g ys of Inl e \<Rightarrow> Inl e | Inr rs' \<Rightarrow> Inr (rs @ rs')))"
  by (induction xs) (auto split: sum.splits)

lemma join_one:
  assumes "distinct (map cs_session_id css)" and "cs \<in> set css"
    and "mo_username cs = user" and "datetime_now < expires_at cs"
  shows "concat (map (\<lambda>y. if cs_session_id cs = cs_session_id y \<and> mo_username y = user
                               \<and> datetime_now < expires_at y then [c] else []) css) = [c]"
  using assms(1,2)
proof (induction css)
  case Nil
  then show ?case by simp
next
  case (Cons a css)
  show ?case
  proof (cases "a = cs")
    case True
    with Cons.prems have "cs_session_id cs \<notin> cs_session_id ` set css" by simp
    then have "concat (map (\<lambda>y. if cs_session_id cs = cs_session_id y \<and> mo_username y = user
                               \<and> datetime_now < expires_at y then [c] else []) css) = []"
      by (induction css) auto
    with True assms(3,4) show ?thesis by simp
  next
    case False
    with Cons.prems have "cs \<in> set css" "cs_session_id cs \<noteq> cs_session_id a"
      by (auto simp: image_iff)
    with Cons show ?thesis by simp
  qed
qed

lemma select_active_captureData:
  assumes "distinct (map cs_session_id (capture_sessions db))"
    and "cs \<in> set (capture_sessions db)" and "cs_session_id cs = s" and "mo_username cs = user"
    and "datetime_now < expires_at cs"
  shows "select_active datetime_now s user (snd (captureData g iv1 iv2 ts None s phone code db)) =
         select_active datetime_now s user db @
           [\<lparr>cd_id = captured_data_seq db + 1, cd_session_id = s,
             encrypted_phone = encrypt g iv1 phone, encrypted_safety_code = encrypt g iv2 code,
             cd_created_at = ts, cd_status = ''new''\<rparr>]"
  using join_one [OF assms(1,2,4,5)] assms(3)
  by (simp add: select_active_def captureData_def Let_def)

text \<open>
  C6. Round trip. Let the cipher return what was sealed under any 16-byte iv (the length
  \<open>encrypt\<close> draws), let the session ids of
  \<open>capture_sessions\<close> be distinct (the column is \<open>UNIQUE\<close>), let the session \<open>s\<close> belong to
  \<open>user\<close> and pass the expiry test of the \<open>SELECT\<close>, and let the records already stored for it
  read back as \<open>rs\<close>. Then \<open>decrypt\<close> is a left inverse of \<open>encrypt\<close> for every text and every
  such iv, and the read after \<open>captureData s phone code\<close> returns \<open>rs\<close> followed by one record that
  carries exactly \<open>phone\<close> and \<open>code\<close>.
\<close>

theorem capture_read_roundtrip:
  assumes gcm: "\<forall>iv text. length iv = 16 \<longrightarrow>
                  unseal g iv (snd (seal g iv text)) (fst (seal g iv text)) = Some text"
    and ivs: "length iv1 = 16" "length iv2 = 16"
    and uniq: "distinct (map cs_session_id (capture_sessions db))"
    and live: "cs \<in> set (capture_sessions db)" "cs_session_id cs = s" "mo_username cs = user"
      "datetime_now < expires_at cs"
    and before: "getSessionData g datetime_now None s user db = Resolved rs"
  shows "(\<forall>iv text. length iv = 16 \<longrightarrow> decrypt g (encrypt g iv text) = Inr text)
       \<and> getSessionData g datetime_now None s user (snd (captureData g iv1 iv2 ts None s phone code db)) =
           Resolved (rs @ [\<lparr>reading_id = captured_data_seq db + 1, phoneNumber = phone,
                             safetyCode = code, createdAt = ts\<rparr>])"
proof -
  have inv: "decrypt g (encrypt g iv msg) = Inr msg" if "length iv = 16" for iv msg
    using gcm that by (simp add: decrypt_encrypt)
  from before have rows: "decrypt_rows g (select_active datetime_now s user db) = Inr rs"
    by (simp add: getSessionData_def split: sum.splits)
  have "getSessionData g datetime_now None s user (snd (captureData g iv1 iv2 ts None s phone code db)) =
           Resolved (rs @ [\<lparr>reading_id = captured_data_seq db + 1, phoneNumber = phone,
                             safetyCode = code, createdAt = ts\<rparr>])"
    by (simp add: getSessionData_def select_active_captureData [OF uniq live] decrypt_rows_append rows
          inv [OF ivs(1)] inv [OF ivs(2)])
  with inv show ?thesis by simp
qed

lemma decrypt_rows_all_verified:
  "decrypt_rows g rows = Inr rs \<Longrightarrow> row \<in> set rows \<Longrightarrow>
     \<not> isl (decrypt g (encrypted_phone row)) \<and> \<not> isl (decrypt g (encrypted_safety_code row))"
  by (induction rows arbitrary: rs) (auto split: sum.splits)

lemma decrypt_rows_failure:
  assumes "row \<in> set rows"
    and "isl (decrypt g (encrypted_phone row)) \<or> isl (decrypt g (encrypted_safety_code row))"
  shows "\<exists>e. decrypt_rows g rows = Inl e"
proof (cases "decrypt_rows g rows")
  case (Inl e)
  then show ?thesis by simp
next
  case (Inr rs)
  from decrypt_rows_all_verified [OF Inr assms(1)] assms(2) show ?thesis by simp
qed

lemma decrypt_rows_success:
  "decrypt_rows g rows = Inr rs \<Longrightarrow>
     list_all2 (\<lambda>row r. decrypt g (encrypted_phone row) = Inr (phoneNumber r)
                       \<and> decrypt g (encrypted_safety_code row) = Inr (safetyCode r)
                       \<and> reading_id r = cd_id row) rows rs"
  by (induction rows arbitrary: rs) (auto split: sum.splits)

text \<open>
  C7. The claim: when a matched record fails decryption or verification, the read fails with
  \<open>IntegrityFailure\<close> and returns no record. The code: when \<open>decrypt\<close> fails on the phone or
  the code of any record the \<open>SELECT\<close> matched, its exception leaves the callback of \<open>db.all\<close>,
  and the promise of \<open>getSessionData\<close> is neither rejected nor resolved: no record is
  returned, and no failure reaches the caller either. A promise that resolves holds one record
  per matched row, each field being what the decipher returned for the stored envelope after
  verifying its tag.
\<close>

theorem read_never_settles_on_failed_record:
  "((\<exists>row \<in> set (select_active datetime_now s user db).
        isl (decrypt g (encrypted_phone row)) \<or> isl (decrypt g (encrypted_safety_code row)))
      \<longrightarrow> (\<exists>e. getSessionData g datetime_now None s user db = Thrown e)
          \<and> (\<forall>e. getSessionData g datetime_now None s user db \<noteq> Rejected e)
          \<and> (\<forall>rs. getSessionData g datetime_now None s user db \<noteq> Resolved rs))
   \<and> (\<forall>rs. getSessionData g datetime_now None s user db = Resolved rs \<longrightarrow>
         list_all2 (\<lambda>row r. decrypt g (encrypted_phone row) = Inr (phoneNumber r)
                           \<and> decrypt g (encrypted_safety_code row) = Inr (safetyCode r)
                           \<and> reading_id r = cd_id row)
           (select_active datetime_now s user db) rs)"
proof -
  have failed: "\<exists>e. getSessionData g datetime_now None s user db = Thrown e"
    if "\<exists>row \<in> set (select_active datetime_now s user db).
        isl (decrypt g (encrypted_phone row)) \<or> isl (decrypt g (encrypted_safety_code row))"
  proof -
    from that obtain row where "row \<in> set (select_active datetime_now s user db)"
      and "isl (decrypt g (encrypted_phone row)) \<or> isl (decrypt g (encrypted_safety_code row))"
      by blast
    from decrypt_rows_failure [OF this] show ?thesis
      by (auto simp: getSessionData_def)
  qed
  have resolved: "list_all2 (\<lambda>row r. decrypt g (encrypted_phone row) = Inr (phoneNumber r)
                           \<and> decrypt g (encrypted_safety_code row) = Inr (safetyCode r)
                           \<and> reading_id r = cd_id row)
           (select_active datetime_now s user db) rs"
    if "getSessionData g datetime_now None s user db = Resolved rs" for rs
  proof -
    from that have "decrypt_rows g (select_active datetime_now s user db) = Inr rs"
      by (simp add: getSessionData_def split: sum.splits)
    then show ?thesis by (rule decrypt_rows_success)
  qed
  have settled: "(\<forall>e. getSessionData g datetime_now None s user db \<noteq> Rejected e)
          \<and> (\<forall>rs. getSessionData g datetime_now None s user db \<noteq> Resolved rs)"
    if "\<exists>e. getSessionData g datetime_now None s user db = Thrown e"
    using that by auto
  from failed settled resolved show ?thesis by blast
qed

text \<open>
  A database error, by contrast, does reach the caller: the callback passes it to \<open>reject\<close>.
\<close>

lemma read_rejects_on_database_error:
  "getSessionData g datetime_now (Some e) s user db = Rejected e"
  by (simp add: getSessionData_def)

lemma tampered_phone_fails:
  "decrypt rev_cipher (toHex iv_a @ '':'' @ toHex (iv_b @ [12]) @ '':''
                             @ toHex (fst (seal rev_cipher iv_a ''+15551234567''))) = Inl DecipherError"
  using iv_a_neq_iv_b
  by (simp add: decrypt_def split_envelope fromHex_toHex length_toHex rev_cipher_def)

lemma select_active_tampered:
  "select_active ''2026-11-02 10:05:00'' 2 ''demo.operator'' store_tampered =
     [\<lparr>cd_id = 1, cd_session_id = 2,
         encrypted_phone = toHex iv_a @ '':'' @ toHex (iv_b @ [12]) @ '':''
                             @ toHex (fst (seal rev_cipher iv_a ''+15551234567'')),
         encrypted_safety_code = encrypt rev_cipher iv_b ''ABC123'',
         cd_created_at = ''2026-11-02 10:00:00'', cd_status = ''new''\<rparr>]"
  by (simp add: select_active_def store_tampered_def store_live_def)

text \<open>
  In \<open>store_tampered\<close> the tag of the stored phone number was altered: the read of session 2
  by its owner ends with the exception of the decipher.
\<close>

theorem read_never_settles_on_failed_record_witness:
  "getSessionData rev_cipher ''2026-11-02 10:05:00'' None 2 ''demo.operator'' store_tampered
     = Thrown DecipherError"
  using read_never_settles_on_failed_record [of "''2026-11-02 10:05:00''" 2 "''demo.operator''" store_tampered rev_cipher]
    tampered_phone_fails
  by (simp add: getSessionData_def select_active_tampered)

theorem capture_read_roundtrip_witness:
  "getSessionData rev_cipher ''2026-11-02 10:05:00'' None 2 ''demo.operator''
     (snd (captureData rev_cipher iv_a iv_b ''2026-11-02 10:00:00'' None 2 ''+15551234567'' ''ABC123'' store_live))
   = Resolved [\<lparr>reading_id = 1, phoneNumber = ''+15551234567'', safetyCode = ''ABC123'',
                 createdAt = ''2026-11-02 10:00:00''\<rparr>]"
proof -
  have gcm: "\<forall>iv msg. length iv = 16 \<longrightarrow>
      unseal rev_cipher iv (snd (seal rev_cipher iv msg)) (fst (seal rev_cipher iv msg)) = Some msg"
    by (simp add: rev_cipher_unseal_seal)
  have ivs: "length iv_a = 16" "length iv_b = 16"
    by (simp_all add: iv_a_def iv_b_def)
  have uniq: "distinct (map cs_session_id (capture_sessions store_live))"
    by (simp add: store_live_def)
  have live: "hd (capture_sessions store_live) \<in> set (capture_sessions store_live)"
    "cs_session_id (hd (capture_sessions store_live)) = 2"
    "mo_username (hd (capture_sessions store_live)) = ''demo.operator''"
    "''2026-11-02 10:05:00'' < expires_at (hd (capture_sessions store_live))"
    by (simp_all add: store_live_def)
  have before: "getSessionData rev_cipher ''2026-11-02 10:05:00'' None 2 ''demo.operator'' store_live = Resolved []"
    by (simp add: getSessionData_def select_active_def store_live_def)
  from capture_read_roundtrip [OF gcm ivs uniq live before,
      of "''2026-11-02 10:00:00''" "''+15551234567''" "''ABC123''"]
  show ?thesis by (simp add: store_live_def)
qed

section \<open>Properties of the validator, the guard and the routes\<close>

subsection \<open>Credential validator\<close>

text \<open>
  C9, as stated, fails: for a username with no stored credential the validator returns without
  a single call of \<open>bcrypt.compare\<close>, while a wrong password for a stored username costs one
  call. The two paths do not perform the same hashing work.
\<close>

theorem unknown_user_is_not_hashed:
  "fst (validateMOCredentials reject_all ''nobody'' ''correct-horse'') = None
   \<and> snd (validateMOCredentials reject_all ''nobody'' ''correct-horse'') = []
   \<and> fst (validateMOCredentials reject_all ''demo.admin'' ''correct-horse'') = None
   \<and> snd (validateMOCredentials reject_all ''demo.admin'' ''correct-horse'') =
        [(''correct-horse'', ''$2b$10$YourHashedPasswordHere'')]"
  by (simp add: validateMOCredentials_def MO_USERS_def reject_all_def)

text \<open>
  C9, amended. For a username that is not in \<open>MO_USERS\<close> the validator returns \<open>None\<close> at once
  and hashes nothing; for a username that is in \<open>MO_USERS\<close> it calls \<open>bcrypt.compare\<close> exactly
  once, on the given password and that user's stored hash, and returns the user exactly when
  the comparison accepts.
\<close>

theorem validate_hashes_known_users_only:
  "(uname \<notin> set (map username MO_USERS) \<longrightarrow>
      validateMOCredentials bcrypt_compare uname password = (None, []))
   \<and> (uname \<in> set (map username MO_USERS) \<longrightarrow>
      (\<exists>user \<in> set MO_USERS. username user = uname
         \<and> snd (validateMOCredentials bcrypt_compare uname password) = [(password, passwordHash user)]
         \<and> fst (validateMOCredentials bcrypt_compare uname password) =
             (if bcrypt_compare password (passwordHash user) then Some user else None)))"
  by (auto simp: validateMOCredentials_def MO_USERS_def)

text \<open>The amended statement at an unknown and at a known username.\<close>

theorem validate_hashes_known_users_only_witness:
  "validateMOCredentials reject_all ''guest'' ''correct-horse'' = (None, [])
   \<and> length (snd (validateMOCredentials reject_all ''demo.operator'' ''correct-horse'')) = 1"
  using validate_hashes_known_users_only [of "''guest''" reject_all "''correct-horse''"]
    validate_hashes_known_users_only [of "''demo.operator''" reject_all "''correct-horse''"]
  by (auto simp: MO_USERS_def)

subsection \<open>The guard on one request\<close>

text \<open>
  C10. For a request whose session has \<open>moUser\<close>: when \<open>lastActivity\<close> is unset (or 0, which
  JavaScript treats alike), the guard never answers \<open>SESSION_EXPIRED\<close>, whatever \<open>now\<close> is; it
  calls \<open>next\<close>, with the error of a failed regeneration when the rotation it then attempts
  fails and plainly otherwise, and where it calls \<open>next()\<close> the session carries
  \<open>lastActivity = now\<close>. \<open>SESSION_EXPIRED\<close> is answered exactly when \<open>lastActivity\<close> is set and
  \<open>now - lastActivity\<close> exceeds 30 minutes.
\<close>

theorem guard_skips_idle_check_when_unset:
  assumes "req_session r = Some sess" and "moUser sess = Some u"
  shows "(lastActivity sess = None \<or> lastActivity sess = Some 0 \<longrightarrow>
            fst (requireAuth now regen_err (r, st)) \<in> {NEXT, NEXT_ERR}
          \<and> (fst (requireAuth now regen_err (r, st)) = NEXT \<longrightarrow>
               map_option lastActivity (req_session (fst (snd (requireAuth now regen_err (r, st))))) = Some (Some now))
          \<and> (\<not> regen_err \<longrightarrow> fst (requireAuth now regen_err (r, st)) = NEXT))
       \<and> (fst (requireAuth now regen_err (r, st)) = SESSION_EXPIRED \<longleftrightarrow>
            (\<exists>t. lastActivity sess = Some t \<and> t \<noteq> 0 \<and> now - t > 30 * 60 * 1000))"
  using assms
  by (auto simp: requireAuth_def truthy_def elapsed_over_def MAX_IDLE_def Let_def session_regenerate_def
        session_destroy_def split: option.splits)

subsection \<open>What one request does to the session store\<close>

text \<open>
  The six ways a request with cookie \<open>c\<close> that arrives at \<open>a\<close> passes \<open>requireAuth\<close>: the store
  returns no session, a session without \<open>moUser\<close>, idle expiry, a rotation that fails, a
  rotation, and a plain pass.
\<close>

lemma session_begin_cases:
  obtains
    (fresh) "\<forall>k. c = Some k \<longrightarrow> sessions st k = None \<or> expired st k < a"
      "session_begin a c st =
         (\<lparr>sessionID = next_sid st, req_session = Some empty_session, originalId = next_sid st, loaded = None\<rparr>,
          st\<lparr>next_sid := Suc (next_sid st)\<rparr>)"
  | (loaded) k sess where "c = Some k" "sessions st k = Some sess" "a \<le> expired st k"
      "session_begin a c st = (\<lparr>sessionID = k, req_session = Some sess, originalId = k, loaded = Some sess\<rparr>, st)"
proof (cases c)
  case None
  then show ?thesis by (intro fresh) (simp_all add: session_begin_def session_generate_def)
next
  case c: (Some k)
  show ?thesis
  proof (cases "sessions st k")
    case None
    with c show ?thesis
      by (intro fresh) (simp_all add: session_begin_def session_generate_def store_get_def)
  next
    case (Some sess)
    show ?thesis
    proof (cases "a \<le> expired st k")
      case True
      with c Some show ?thesis
        by (intro loaded [of k sess]) (simp_all add: session_begin_def store_get_def)
    next
      case False
      with c Some show ?thesis
        by (intro fresh) (simp_all add: session_begin_def session_generate_def store_get_def)
    qed
  qed
qed

lemma guard_cases:
  obtains
    (fresh) "\<forall>k. c = Some k \<longrightarrow> sessions st k = None \<or> expired st k < a"
      "requireAuth now e (session_begin a c st) =
         (AUTH_REQUIRED,
          \<lparr>sessionID = next_sid st, req_session = Some empty_session, originalId = next_sid st, loaded = None\<rparr>,
          st\<lparr>next_sid := Suc (next_sid st)\<rparr>)"
  | (anonymous) k sess where "c = Some k" "sessions st k = Some sess" "a \<le> expired st k"
      "moUser sess = None"
      "requireAuth now e (session_begin a c st) =
         (AUTH_REQUIRED, \<lparr>sessionID = k, req_session = Some sess, originalId = k, loaded = Some sess\<rparr>, st)"
  | (idle) k sess where "c = Some k" "sessions st k = Some sess" "a \<le> expired st k"
      "moUser sess \<noteq> None"
      "truthy (lastActivity sess) \<and> elapsed_over now (lastActivity sess) MAX_IDLE"
      "requireAuth now e (session_begin a c st) =
         (SESSION_EXPIRED, \<lparr>sessionID = k, req_session = None, originalId = k, loaded = Some sess\<rparr>,
          st\<lparr>sessions := (sessions st)(k := None)\<rparr>)"
  | (rotation_failed) k sess where "c = Some k" "sessions st k = Some sess" "a \<le> expired st k"
      "moUser sess \<noteq> None"
      "\<not> (truthy (lastActivity sess) \<and> elapsed_over now (lastActivity sess) MAX_IDLE)"
      "\<not> truthy (lastRegenerated sess) \<or> elapsed_over now (lastRegenerated sess) (15 * 60 * 1000)"
      "e"
      "requireAuth now e (session_begin a c st) =
         (NEXT_ERR, \<lparr>sessionID = next_sid st, req_session = Some empty_session, originalId = k, loaded = Some sess\<rparr>,
          st\<lparr>sessions := sessions st, next_sid := Suc (next_sid st)\<rparr>)"
  | (rotated) k sess where "c = Some k" "sessions st k = Some sess" "a \<le> expired st k"
      "moUser sess \<noteq> None"
      "\<not> (truthy (lastActivity sess) \<and> elapsed_over now (lastActivity sess) MAX_IDLE)"
      "\<not> truthy (lastRegenerated sess) \<or> elapsed_over now (lastRegenerated sess) (15 * 60 * 1000)"
      "\<not> e"
      "requireAuth now e (session_begin a c st) =
         (NEXT,
          \<lparr>sessionID = next_sid st,
            req_session = Some (sess\<lparr>lastActivity := Some now, lastRegenerated := Some now\<rparr>),
            originalId = k, loaded = Some sess\<rparr>,
          st\<lparr>sessions := (sessions st)(k := None), next_sid := Suc (next_sid st)\<rparr>)"
  | (touched) k sess where "c = Some k" "sessions st k = Some sess" "a \<le> expired st k"
      "moUser sess \<noteq> None"
      "\<not> (truthy (lastActivity sess) \<and> elapsed_over now (lastActivity sess) MAX_IDLE)"
      "\<not> (\<not> truthy (lastRegenerated sess) \<or> elapsed_over now (lastRegenerated sess) (15 * 60 * 1000))"
      "requireAuth now e (session_begin a c st) =
         (NEXT, \<lparr>sessionID = k, req_session = Some (sess\<lparr>lastActivity := Some now\<rparr>),
                 originalId = k, loaded = Some sess\<rparr>, st)"
proof (cases rule: session_begin_cases [of c st a])
  case fresh
  then have "requireAuth now e (session_begin a c st) =
         (AUTH_REQUIRED,
          \<lparr>sessionID = next_sid st, req_session = Some empty_session, originalId = next_sid st, loaded = None\<rparr>,
          st\<lparr>next_sid := Suc (next_sid st)\<rparr>)"
    by (simp add: requireAuth_def empty_session_def)
  with fresh(1) show ?thesis by (rule that(1))
next
  case (loaded k sess)
  note c = loaded(1) and k = loaded(2) and v = loaded(3) and loaded = loaded(4)
  show ?thesis
  proof (cases "moUser sess")
    case None
    with loaded have "requireAuth now e (session_begin a c st) =
         (AUTH_REQUIRED, \<lparr>sessionID = k, req_session = Some sess, originalId = k, loaded = Some sess\<rparr>, st)"
      by (simp add: requireAuth_def)
    with c k v None show ?thesis by (rule anonymous)
  next
    case (Some u)
    then have auth: "moUser sess \<noteq> None" by simp
    show ?thesis
    proof (cases "truthy (lastActivity sess) \<and> elapsed_over now (lastActivity sess) MAX_IDLE")
      case True
      with loaded Some have "requireAuth now e (session_begin a c st) =
         (SESSION_EXPIRED, \<lparr>sessionID = k, req_session = None, originalId = k, loaded = Some sess\<rparr>,
          st\<lparr>sessions := (sessions st)(k := None)\<rparr>)"
        by (simp add: requireAuth_def session_destroy_def)
      with c k v auth True show ?thesis by (rule idle)
    next
      case active: False
      show ?thesis
      proof (cases "\<not> truthy (lastRegenerated sess) \<or> elapsed_over now (lastRegenerated sess) (15 * 60 * 1000)")
        case due: True
        show ?thesis
        proof (cases e)
          case True
          with loaded Some active due have "requireAuth now e (session_begin a c st) =
            (NEXT_ERR, \<lparr>sessionID = next_sid st, req_session = Some empty_session, originalId = k, loaded = Some sess\<rparr>,
             st\<lparr>sessions := sessions st, next_sid := Suc (next_sid st)\<rparr>)"
            by (simp add: requireAuth_def session_regenerate_def Let_def)
          with c k v auth active due True show ?thesis by (rule rotation_failed)
        next
          case False
          with loaded Some active due have "requireAuth now e (session_begin a c st) =
            (NEXT,
             \<lparr>sessionID = next_sid st,
               req_session = Some (sess\<lparr>lastActivity := Some now, lastRegenerated := Some now\<rparr>),
               originalId = k, loaded = Some sess\<rparr>,
             st\<lparr>sessions := (sessions st)(k := None), next_sid := Suc (next_sid st)\<rparr>)"
            by (simp add: requireAuth_def session_regenerate_def Let_def)
          with c k v auth active due False show ?thesis by (rule rotated)
        qed
      next
        case False
        with loaded Some active have "requireAuth now e (session_begin a c st) =
          (NEXT, \<lparr>sessionID = k, req_session = Some (sess\<lparr>lastActivity := Some now\<rparr>),
                 originalId = k, loaded = Some sess\<rparr>, st)"
          by (simp add: requireAuth_def Let_def)
        with c k v auth active False show ?thesis by (rule touched)
      qed
    qed
  qed
qed

lemma session_end_other [simp]:
  "next_sid (session_end fin (r, st)) = next_sid st"
  "store (session_end fin (r, st)) = store st"
  "activeSessions (session_end fin (r, st)) = activeSessions st"
  by (simp_all add: session_end_def store_set_def store_touch_def split: option.splits)

lemma sessions_session_end:
  "sessions (session_end fin (r, st)) =
     (case req_session r of
        None \<Rightarrow> sessions st
      | Some sess \<Rightarrow> if isModified r sess then (sessions st)(sessionID r \<mapsto> sess) else sessions st)"
  by (simp add: session_end_def store_set_def store_touch_def split: option.splits)

lemma session_end_expired:
  "expired (session_end fin (r, st)) j \<noteq> expired st j \<Longrightarrow> j = sessionID r"
  by (auto simp: session_end_def store_set_def store_touch_def split: option.splits if_splits)

lemma session_end_destroyed [simp]:
  "req_session r = None \<Longrightarrow> session_end fin (r, st) = st"
  by (simp add: session_end_def)

lemma session_end_generated [simp]:
  "session_end fin (\<lparr>sessionID = n, req_session = Some empty_session, originalId = n, loaded = None\<rparr>, st)
     = st"
  by (simp add: session_end_def isModified_def)

lemma session_end_same_id:
  assumes "sessions st k = Some saved"
  shows "sessions (session_end fin
                     (\<lparr>sessionID = k, req_session = Some sess, originalId = k, loaded = Some saved\<rparr>, st))
           = (sessions st)(k \<mapsto> sess)"
proof (cases "sess = saved")
  case True
  with assms have "(sessions st)(k \<mapsto> sess) = sessions st" by (simp add: map_upd_triv)
  with True show ?thesis by (simp add: sessions_session_end isModified_def)
next
  case False
  then show ?thesis by (simp add: sessions_session_end isModified_def)
qed

lemma session_end_new_id:
  assumes "n \<noteq> k"
  shows "session_end fin (\<lparr>sessionID = n, req_session = Some sess, originalId = k, loaded = l\<rparr>, st)
           = store_set fin n sess st"
  using assms by (simp add: session_end_def isModified_def)

lemma keys_below_next: "keys_below st \<Longrightarrow> sessions st (next_sid st) = None"
  by (cases "sessions st (next_sid st)") (auto simp: keys_below_def)

lemma session_stepI:
  assumes kb: "keys_below st"
    and le: "next_sid st \<le> next_sid st'"
    and kept: "\<And>j s1. sessions st' j = Some s1 \<Longrightarrow> j \<noteq> new \<Longrightarrow>
                 \<exists>s0. sessions st j = Some s0 \<and> same_login s0 s1"
    and fresh: "\<And>s1. sessions st' new = Some s1 \<Longrightarrow>
                 next_sid st \<le> new \<and> new < next_sid st'
                 \<and> (moUser s1 = None \<and> demoSessionId s1 = None
                    \<or> demoSessionId s1 = Some new
                    \<or> (\<exists>k0 s0. sessions st k0 = Some s0 \<and> sessions st' k0 = None \<and> same_login s0 s1))"
  shows "session_step st st'"
  unfolding session_step_def
proof (intro conjI allI impI)
  show "next_sid st \<le> next_sid st'" by (rule le)
next
  fix k s1
  assume k: "sessions st' k = Some s1"
  show "(\<exists>s0. sessions st k = Some s0 \<and> same_login s0 s1)
          \<or> (next_sid st \<le> k \<and> k < next_sid st'
              \<and> (moUser s1 = None \<and> demoSessionId s1 = None
                  \<or> demoSessionId s1 = Some k
                  \<or> (\<exists>k0 s0. sessions st k0 = Some s0 \<and> sessions st' k0 = None \<and> same_login s0 s1)))"
  proof (cases "k = new")
    case True
    with fresh [of s1] k show ?thesis by simp
  next
    case False
    with kept [OF k] show ?thesis by simp
  qed
next
  fix k k'
  assume a: "next_sid st \<le> k \<and> next_sid st \<le> k' \<and> sessions st' k \<noteq> None \<and> sessions st' k' \<noteq> None"
  have "j = new" if "next_sid st \<le> j" and "sessions st' j \<noteq> None" for j
  proof (rule ccontr)
    assume "j \<noteq> new"
    with kept that obtain s0 where "sessions st j = Some s0" by blast
    with kb have "j < next_sid st" by (auto simp: keys_below_def)
    with that show False by simp
  qed
  with a show "k = k'" by blast
qed

lemma session_stepI_no_new:
  assumes kb: "keys_below st"
    and le: "next_sid st \<le> next_sid st'"
    and kept: "\<And>j s1. sessions st' j = Some s1 \<Longrightarrow> \<exists>s0. sessions st j = Some s0 \<and> same_login s0 s1"
  shows "session_step st st'"
proof (rule session_stepI [where new = "next_sid st"])
  fix s1
  assume "sessions st' (next_sid st) = Some s1"
  with kept obtain s0 where "sessions st (next_sid st) = Some s0" by blast
  with kb have "next_sid st < next_sid st" by (auto simp: keys_below_def)
  then show "next_sid st \<le> next_sid st \<and> next_sid st < next_sid st'
                 \<and> (moUser s1 = None \<and> demoSessionId s1 = None
                    \<or> demoSessionId s1 = Some (next_sid st)
                    \<or> (\<exists>k0 s0. sessions st k0 = Some s0 \<and> sessions st' k0 = None \<and> same_login s0 s1))"
    by simp
qed (use assms in auto)

text \<open>The stored sessions after a guarded route, case by case.\<close>

lemma guarded_route_sessions:
  assumes "keys_below st"
  shows "next_sid st \<le> next_sid (snd (guarded_route c a now fin e h st))
       \<and> next_sid (snd (guarded_route c a now fin e h st)) \<le> Suc (next_sid st)
       \<and> (sessions (snd (guarded_route c a now fin e h st)) = sessions st
          \<or> (\<exists>k sess. c = Some k \<and> sessions st k = Some sess \<and> a \<le> expired st k \<and> moUser sess \<noteq> None
                \<and> (sessions (snd (guarded_route c a now fin e h st)) = (sessions st)(k := None)
                   \<or> sessions (snd (guarded_route c a now fin e h st)) =
                       (sessions st)(k \<mapsto> sess\<lparr>lastActivity := Some now\<rparr>)
                   \<or> next_sid (snd (guarded_route c a now fin e h st)) = Suc (next_sid st)
                      \<and> (sessions (snd (guarded_route c a now fin e h st)) =
                           (sessions st)(next_sid st \<mapsto> empty_session)
                         \<or> sessions (snd (guarded_route c a now fin e h st)) =
                             ((sessions st)(k := None))(next_sid st \<mapsto>
                                sess\<lparr>lastActivity := Some now, lastRegenerated := Some now\<rparr>)))))"
proof (cases rule: guard_cases [of c st a now e])
  case fresh
  then show ?thesis by (simp add: guarded_route_def)
next
  case (anonymous k sess)
  then show ?thesis
    by (simp add: guarded_route_def session_end_same_id map_upd_triv)
next
  case (idle k sess)
  then show ?thesis by (simp add: guarded_route_def)
next
  case (rotation_failed k sess)
  from assms rotation_failed have "k \<noteq> next_sid st" by (auto simp: keys_below_def)
  with rotation_failed show ?thesis
    by (simp add: guarded_route_def session_end_new_id store_set_def)
next
  case (rotated k sess)
  from assms rotated have "k \<noteq> next_sid st" by (auto simp: keys_below_def)
  with rotated show ?thesis
    by (simp add: guarded_route_def session_end_new_id store_set_def)
next
  case (touched k sess)
  then show ?thesis
    by (simp add: guarded_route_def session_end_same_id)
qed

lemma session_step_guarded:
  assumes "keys_below st"
  shows "session_step st (snd (guarded_route c a now fin e h st))"
proof -
  let ?st' = "snd (guarded_route c a now fin e h st)"
  from guarded_route_sessions [OF assms, of c a now fin e h]
  have le: "next_sid st \<le> next_sid ?st'"
    and shape: "sessions ?st' = sessions st
          \<or> (\<exists>k sess. c = Some k \<and> sessions st k = Some sess \<and> a \<le> expired st k \<and> moUser sess \<noteq> None
                \<and> (sessions ?st' = (sessions st)(k := None)
                   \<or> sessions ?st' = (sessions st)(k \<mapsto> sess\<lparr>lastActivity := Some now\<rparr>)
                   \<or> next_sid ?st' = Suc (next_sid st)
                      \<and> (sessions ?st' = (sessions st)(next_sid st \<mapsto> empty_session)
                         \<or> sessions ?st' =
                             ((sessions st)(k := None))(next_sid st \<mapsto>
                                sess\<lparr>lastActivity := Some now, lastRegenerated := Some now\<rparr>))))"
    by blast+
  from shape show ?thesis
  proof (elim disjE exE conjE)
    assume "sessions ?st' = sessions st"
    with assms le show ?thesis
      by (intro session_stepI_no_new) (auto simp: same_login_def)
  next
    fix k sess
    assume "sessions st k = Some sess" "sessions ?st' = (sessions st)(k := None)"
    with assms le show ?thesis
      by (intro session_stepI_no_new) (auto simp: same_login_def split: if_splits)
  next
    fix k sess
    assume "sessions st k = Some sess"
      "sessions ?st' = (sessions st)(k \<mapsto> sess\<lparr>lastActivity := Some now\<rparr>)"
    with assms le show ?thesis
      by (intro session_stepI_no_new) (auto simp: same_login_def split: if_splits)
  next
    fix k sess
    assume "sessions st k = Some sess" "next_sid ?st' = Suc (next_sid st)"
      "sessions ?st' = (sessions st)(next_sid st \<mapsto> empty_session)"
    with assms le show ?thesis
      by (intro session_stepI [where new = "next_sid st"])
         (auto simp: same_login_def empty_session_def split: if_splits)
  next
    fix k sess
    assume k: "sessions st k = Some sess" and "next_sid ?st' = Suc (next_sid st)"
      "sessions ?st' = ((sessions st)(k := None))(next_sid st \<mapsto>
                                sess\<lparr>lastActivity := Some now, lastRegenerated := Some now\<rparr>)"
    moreover from assms k have "k \<noteq> next_sid st" by (auto simp: keys_below_def)
    ultimately show ?thesis using assms le
      by (intro session_stepI [where new = "next_sid st"])
         (auto simp: same_login_def split: if_splits)
  qed
qed

text \<open>
  Neither the guard nor a handler writes an expiry; the end of the response writes the one of
  \<open>req.sessionID\<close>, which is the identifier the store returned a session for or a new one.
\<close>

lemma session_begin_keeps:
  assumes "session_begin a c st = (r, st1)"
  shows "expired st1 = expired st \<and> next_sid st \<le> next_sid st1
       \<and> (next_sid st \<le> sessionID r
          \<or> c = Some (sessionID r) \<and> sessions st (sessionID r) \<noteq> None \<and> a \<le> expired st (sessionID r))"
  using assms by (cases rule: session_begin_cases [of c st a]) auto

lemma requireAuth_keeps:
  assumes "requireAuth now e (r, st1) = (g, r', st')"
  shows "expired st' = expired st1 \<and> next_sid st1 \<le> next_sid st'
       \<and> (sessionID r' = sessionID r \<or> next_sid st1 \<le> sessionID r')"
  using assms
  by (auto simp: requireAuth_def session_destroy_def session_regenerate_def Let_def
        split: option.splits if_splits)

lemma logout_handler_keeps:
  assumes "logout_handler err1 err2 de (r, st1) = (resp, r', st')"
  shows "expired st' = expired st1 \<and> next_sid st' = next_sid st1 \<and> sessionID r' = sessionID r"
  using assms
  by (auto simp: logout_handler_def session_destroy_def Let_def
        split: option.splits promise.splits prod.splits)

lemma login_handler_keeps:
  assumes "login_handler bcrypt_compare toISOString now ts e db_err uname password (r, st1) = (resp, r', st')"
  shows "expired st' = expired st1 \<and> next_sid st1 \<le> next_sid st'
       \<and> (sessionID r' = sessionID r \<or> next_sid st1 \<le> sessionID r')"
  using assms
  by (auto simp: login_handler_def session_regenerate_def createSession_def Let_def
        split: option.splits promise.splits prod.splits if_splits)

lemma session_end_store_expired [simp]:
  "expired (session_end fin (r, st\<lparr>store := x\<rparr>)) = expired (session_end fin (r, st))"
  by (auto simp: session_end_def store_set_def store_touch_def split: option.splits)

lemma expiry_keptI:
  assumes ch: "\<And>k. expired st' k \<noteq> expired st k \<Longrightarrow>
             next_sid st \<le> k \<or> sessions st k \<noteq> None \<and> a \<le> expired st k"
    and "T \<le> a"
  shows "expiry_kept T st st'"
  unfolding expiry_kept_def
proof (intro allI impI)
  fix k
  assume k: "k < next_sid st \<and> expired st' k \<noteq> expired st k"
  with ch [of k] have "sessions st k \<noteq> None \<and> a \<le> expired st k" by simp
  with \<open>T \<le> a\<close> show "sessions st k \<noteq> None \<and> T \<le> expired st k" by simp
qed

lemma expiry_kept_guarded:
  assumes "T \<le> a"
  shows "expiry_kept T st (snd (guarded_route c a now fin e h st))"
proof (rule expiry_keptI [OF _ assms])
  fix j
  assume ch: "expired (snd (guarded_route c a now fin e h st)) j \<noteq> expired st j"
  obtain r st1 where b: "session_begin a c st = (r, st1)"
    by (cases "session_begin a c st") auto
  obtain g r' st2 where q: "requireAuth now e (r, st1) = (g, r', st2)"
    by (cases "requireAuth now e (r, st1)") auto
  from session_begin_keeps [OF b] have e1: "expired st1 = expired st"
    and n1: "next_sid st \<le> next_sid st1"
    and id1: "next_sid st \<le> sessionID r
          \<or> c = Some (sessionID r) \<and> sessions st (sessionID r) \<noteq> None \<and> a \<le> expired st (sessionID r)"
    by simp_all
  from requireAuth_keeps [OF q] have e2: "expired st2 = expired st1"
    and id2: "sessionID r' = sessionID r \<or> next_sid st1 \<le> sessionID r'"
    by simp_all
  from b q have "expired (snd (guarded_route c a now fin e h st)) = expired (session_end fin (r', st2))"
    by (cases g) (simp_all add: guarded_route_def)
  with ch e1 e2 have "expired (session_end fin (r', st2)) j \<noteq> expired st2 j" by simp
  then have "j = sessionID r'" by (rule session_end_expired)
  with id1 id2 n1 show "next_sid st \<le> j \<or> sessions st j \<noteq> None \<and> a \<le> expired st j"
    by auto
qed

lemma expiry_kept_logout:
  assumes "T \<le> a"
  shows "expiry_kept T st (snd (logout_route c a now fin e err1 err2 de st))"
proof (rule expiry_keptI [OF _ assms])
  fix j
  assume ch: "expired (snd (logout_route c a now fin e err1 err2 de st)) j \<noteq> expired st j"
  obtain r st1 where b: "session_begin a c st = (r, st1)"
    by (cases "session_begin a c st") auto
  obtain g r' st2 where q: "requireAuth now e (r, st1) = (g, r', st2)"
    by (cases "requireAuth now e (r, st1)") auto
  obtain resp r'' st3 where l: "logout_handler err1 err2 de (r', st2) = (resp, r'', st3)"
    by (cases "logout_handler err1 err2 de (r', st2)") auto
  from session_begin_keeps [OF b] have e1: "expired st1 = expired st"
    and n1: "next_sid st \<le> next_sid st1"
    and id1: "next_sid st \<le> sessionID r
          \<or> c = Some (sessionID r) \<and> sessions st (sessionID r) \<noteq> None \<and> a \<le> expired st (sessionID r)"
    by simp_all
  from requireAuth_keeps [OF q] have e2: "expired st2 = expired st1"
    and id2: "sessionID r' = sessionID r \<or> next_sid st1 \<le> sessionID r'"
    by simp_all
  from logout_handler_keeps [OF l] have e3: "expired st3 = expired st2"
    and id3: "sessionID r'' = sessionID r'"
    by simp_all
  from b q l have "expired (snd (logout_route c a now fin e err1 err2 de st)) = expired (session_end fin (r', st2))
      \<or> expired (snd (logout_route c a now fin e err1 err2 de st)) = expired (session_end fin (r'', st3))"
    by (cases g) (simp_all add: logout_route_def)
  with ch e1 e2 e3 have "expired (session_end fin (r', st2)) j \<noteq> expired st2 j
      \<or> expired (session_end fin (r'', st3)) j \<noteq> expired st3 j"
    by auto
  then have "j = sessionID r'" using id3 by (auto dest: session_end_expired)
  with id1 id2 n1 show "next_sid st \<le> j \<or> sessions st j \<noteq> None \<and> a \<le> expired st j"
    by auto
qed

lemma expiry_kept_login:
  assumes "T \<le> a"
  shows "expiry_kept T st
           (snd (login_route bcrypt_compare toISOString c a now fin ts e db_err uname password st))"
proof (rule expiry_keptI [OF _ assms])
  fix j
  let ?st' = "snd (login_route bcrypt_compare toISOString c a now fin ts e db_err uname password st)"
  assume ch: "expired ?st' j \<noteq> expired st j"
  obtain r st1 where b: "session_begin a c st = (r, st1)"
    by (cases "session_begin a c st") auto
  obtain resp r' st2 where
    l: "login_handler bcrypt_compare toISOString now ts e db_err uname password (r, st1) = (resp, r', st2)"
    by (cases "login_handler bcrypt_compare toISOString now ts e db_err uname password (r, st1)") auto
  from session_begin_keeps [OF b] have e1: "expired st1 = expired st"
    and n1: "next_sid st \<le> next_sid st1"
    and id1: "next_sid st \<le> sessionID r
          \<or> c = Some (sessionID r) \<and> sessions st (sessionID r) \<noteq> None \<and> a \<le> expired st (sessionID r)"
    by simp_all
  from login_handler_keeps [OF l] have e2: "expired st2 = expired st1"
    and id2: "sessionID r' = sessionID r \<or> next_sid st1 \<le> sessionID r'"
    by simp_all
  from b l have "expired ?st' = expired st2 \<or> expired ?st' = expired (session_end fin (r', st2))"
    by (simp add: login_route_def)
  with ch e1 e2 have "expired (session_end fin (r', st2)) j \<noteq> expired st2 j" by auto
  then have "j = sessionID r'" by (rule session_end_expired)
  with id1 id2 n1 show "next_sid st \<le> j \<or> sessions st j \<noteq> None \<and> a \<le> expired st j"
    by auto
qed

lemma expiry_kept_unguarded:
  assumes "T \<le> a"
  shows "expiry_kept T st (snd (unguarded_route c a fin st))"
proof (rule expiry_keptI [OF _ assms])
  fix j
  assume ch: "expired (snd (unguarded_route c a fin st)) j \<noteq> expired st j"
  obtain r st1 where b: "session_begin a c st = (r, st1)"
    by (cases "session_begin a c st") auto
  from session_begin_keeps [OF b] have e1: "expired st1 = expired st"
    and id1: "next_sid st \<le> sessionID r
          \<or> c = Some (sessionID r) \<and> sessions st (sessionID r) \<noteq> None \<and> a \<le> expired st (sessionID r)"
    by simp_all
  from b ch e1 have "expired (session_end fin (r, st1)) j \<noteq> expired st1 j"
    by (simp add: unguarded_route_def)
  then have "j = sessionID r" by (rule session_end_expired)
  with id1 show "next_sid st \<le> j \<or> sessions st j \<noteq> None \<and> a \<le> expired st j"
    by auto
qed

lemma expiry_kept_step:
  assumes "not_before T ev"
  shows "expiry_kept T st (snd (step bcrypt_compare toISOString ev st))"
proof (cases ev)
  case (Sweep f x y)
  then show ?thesis by (simp add: expiry_kept_def)
next
  case (Cleanup t)
  then show ?thesis by (simp add: expiry_kept_def store_cleanup_def)
qed (use assms in \<open>simp_all add: expiry_kept_guarded expiry_kept_logout expiry_kept_login expiry_kept_unguarded\<close>)

lemma logout_handler_sessions:
  assumes "req_session r = Some sess"
    and "logout_handler err1 err2 de (r, st1) = (resp, r', st')"
  shows "next_sid st' = next_sid st1
         \<and> (r' = r \<and> sessions st' = sessions st1
            \<or> req_session r' = None
               \<and> (sessions st' = sessions st1 \<or> sessions st' = (sessions st1)(sessionID r := None)))"
  using assms
  by (auto simp: logout_handler_def endSession_def session_destroy_def Let_def
        split: option.splits promise.splits if_splits prod.splits)

lemma session_step_logout:
  assumes "keys_below st"
  shows "session_step st (snd (logout_route c a now fin e err1 err2 de st))"
proof (cases rule: guard_cases [of c st a now e])
  case fresh
  then have "snd (logout_route c a now fin e err1 err2 de st) = snd (guarded_route c a now fin e id st)"
    by (simp add: logout_route_def guarded_route_def)
  with assms show ?thesis by (simp add: session_step_guarded)
next
  case (anonymous k sess)
  then have "snd (logout_route c a now fin e err1 err2 de st) = snd (guarded_route c a now fin e id st)"
    by (simp add: logout_route_def guarded_route_def)
  with assms show ?thesis by (simp add: session_step_guarded)
next
  case (idle k sess)
  then have "snd (logout_route c a now fin e err1 err2 de st) = snd (guarded_route c a now fin e id st)"
    by (simp add: logout_route_def guarded_route_def)
  with assms show ?thesis by (simp add: session_step_guarded)
next
  case (rotation_failed k sess)
  then have "snd (logout_route c a now fin e err1 err2 de st) = snd (guarded_route c a now fin e id st)"
    by (simp add: logout_route_def guarded_route_def)
  with assms show ?thesis by (simp add: session_step_guarded)
next
  case (rotated k sess)
  let ?s1 = "sess\<lparr>lastActivity := Some now, lastRegenerated := Some now\<rparr>"
  let ?r = "\<lparr>sessionID = next_sid st, req_session = Some ?s1, originalId = k, loaded = Some sess\<rparr>"
  let ?st1 = "st\<lparr>sessions := (sessions st)(k := None), next_sid := Suc (next_sid st)\<rparr>"
  obtain resp r' st' where h: "logout_handler err1 err2 de (?r, ?st1) = (resp, r', st')"
    by (cases "logout_handler err1 err2 de (?r, ?st1)") auto
  with rotated have res: "snd (logout_route c a now fin e err1 err2 de st) = session_end fin (r', st')"
    by (simp add: logout_route_def)
  from assms rotated have kn: "k \<noteq> next_sid st" by (auto simp: keys_below_def)
  from logout_handler_sessions [OF _ h, of ?s1] have n: "next_sid st' = Suc (next_sid st)"
    and alt: "r' = ?r \<and> sessions st' = (sessions st)(k := None)
            \<or> req_session r' = None
               \<and> (sessions st' = (sessions st)(k := None)
                  \<or> sessions st' = ((sessions st)(k := None))(next_sid st := None))"
    by simp_all
  from alt have "sessions (session_end fin (r', st')) = ((sessions st)(k := None))(next_sid st \<mapsto> ?s1)
      \<or> sessions (session_end fin (r', st')) = (sessions st)(k := None)
      \<or> sessions (session_end fin (r', st')) = ((sessions st)(k := None))(next_sid st := None)"
    by (auto simp: sessions_session_end isModified_def)
  moreover have "next_sid (session_end fin (r', st')) = Suc (next_sid st)"
    using n by simp
  ultimately show ?thesis unfolding res using assms rotated(2,4) kn keys_below_next [OF assms]
    by (intro session_stepI [where new = "next_sid st"])
       (auto simp: same_login_def split: if_splits)
next
  case (touched k sess)
  let ?s1 = "sess\<lparr>lastActivity := Some now\<rparr>"
  let ?r = "\<lparr>sessionID = k, req_session = Some ?s1, originalId = k, loaded = Some sess\<rparr>"
  obtain resp r' st' where h: "logout_handler err1 err2 de (?r, st) = (resp, r', st')"
    by (cases "logout_handler err1 err2 de (?r, st)") auto
  with touched have res: "snd (logout_route c a now fin e err1 err2 de st) = session_end fin (r', st')"
    by (simp add: logout_route_def)
  from logout_handler_sessions [OF _ h, of ?s1] have n: "next_sid st' = next_sid st"
    and alt: "r' = ?r \<and> sessions st' = sessions st
            \<or> req_session r' = None
               \<and> (sessions st' = sessions st \<or> sessions st' = (sessions st)(k := None))"
    by simp_all
  from alt touched(2) have "sessions (session_end fin (r', st')) = (sessions st)(k \<mapsto> ?s1)
      \<or> sessions (session_end fin (r', st')) = sessions st
      \<or> sessions (session_end fin (r', st')) = (sessions st)(k := None)"
    by (auto simp: sessions_session_end isModified_def)
  moreover have "next_sid (session_end fin (r', st')) = next_sid st"
    using n by simp
  ultimately show ?thesis unfolding res using assms touched(2,4)
    by (intro session_stepI_no_new) (auto simp: same_login_def split: if_splits)
qed

lemma login_handler_sessions:
  assumes "req_session r0 = Some s0"
    and "login_handler bcrypt_compare toISOString now ts e db_err uname password (r0, st0) = (resp, r', st')"
  shows "resp = Auth_failed \<and> r' = r0 \<and> st' = st0
       \<or> resp = Session_creation_failed
           \<and> r' = r0\<lparr>sessionID := next_sid st0, req_session := Some empty_session\<rparr>
           \<and> sessions st' = sessions st0 \<and> next_sid st' = Suc (next_sid st0)
       \<or> resp = Login_success
           \<and> sessionID r' = next_sid st0 \<and> loaded r' = loaded r0
           \<and> (\<exists>s1. req_session r' = Some s1 \<and> demoSessionId s1 = Some (next_sid st0) \<and> moUser s1 \<noteq> None)
           \<and> sessions st' = (sessions st0)(sessionID r0 := None) \<and> next_sid st' = Suc (next_sid st0)
       \<or> resp = No_response
           \<and> sessions st' = (sessions st0)(sessionID r0 := None) \<and> next_sid st' = Suc (next_sid st0)"
  using assms
  by (auto simp: login_handler_def session_regenerate_def createSession_def Let_def
        split: option.splits promise.splits if_splits prod.splits)

lemma session_step_login:
  assumes "keys_below st"
  shows "session_step st
           (snd (login_route bcrypt_compare toISOString c a now fin ts e db_err uname password st))"
proof (cases rule: session_begin_cases [of c st a])
  case fresh
  let ?r0 = "\<lparr>sessionID = next_sid st, req_session = Some empty_session, originalId = next_sid st, loaded = None\<rparr>"
  let ?st0 = "st\<lparr>next_sid := Suc (next_sid st)\<rparr>"
  obtain resp r' st' where
    h: "login_handler bcrypt_compare toISOString now ts e db_err uname password (?r0, ?st0) = (resp, r', st')"
    by (cases "login_handler bcrypt_compare toISOString now ts e db_err uname password (?r0, ?st0)") auto
  with fresh have res:
    "snd (login_route bcrypt_compare toISOString c a now fin ts e db_err uname password st) =
       (if resp = No_response then st' else session_end fin (r', st'))"
    by (simp add: login_route_def)
  from keys_below_next [OF assms] have x: "sessions st (next_sid st) = None" .
  from assms have y: "sessions st (Suc (next_sid st)) = None"
    by (cases "sessions st (Suc (next_sid st))") (auto simp: keys_below_def)
  from login_handler_sessions [OF _ h, of empty_session] x y
  show ?thesis unfolding res using assms
    by (intro session_stepI [where new = "Suc (next_sid st)"])
       (auto simp: sessions_session_end isModified_def same_login_def empty_session_def split: if_splits)
next
  case (loaded k sess)
  let ?r0 = "\<lparr>sessionID = k, req_session = Some sess, originalId = k, loaded = Some sess\<rparr>"
  obtain resp r' st' where
    h: "login_handler bcrypt_compare toISOString now ts e db_err uname password (?r0, st) = (resp, r', st')"
    by (cases "login_handler bcrypt_compare toISOString now ts e db_err uname password (?r0, st)") auto
  with loaded have res:
    "snd (login_route bcrypt_compare toISOString c a now fin ts e db_err uname password st) =
       (if resp = No_response then st' else session_end fin (r', st'))"
    by (simp add: login_route_def)
  from keys_below_next [OF assms] have x: "sessions st (next_sid st) = None" .
  with loaded have kn: "k \<noteq> next_sid st" by auto
  from login_handler_sessions [OF _ h, of sess] x kn loaded(2)
  show ?thesis unfolding res using assms
    by (intro session_stepI [where new = "next_sid st"])
       (auto simp: sessions_session_end isModified_def same_login_def empty_session_def split: if_splits)
qed

lemma session_step_unguarded:
  assumes "keys_below st"
  shows "session_step st (snd (unguarded_route c a fin st))"
proof (cases rule: session_begin_cases [of c st a])
  case fresh
  with assms show ?thesis
    by (intro session_stepI_no_new) (auto simp: unguarded_route_def same_login_def)
next
  case (loaded k sess)
  with assms show ?thesis
    by (intro session_stepI_no_new)
       (auto simp: unguarded_route_def sessions_session_end isModified_def same_login_def split: if_splits)
qed

lemma session_step_step:
  assumes "keys_below st"
  shows "session_step st (snd (step bcrypt_compare toISOString ev st))"
proof (cases ev)
  case (Sweep f x y)
  with assms show ?thesis
    by (intro session_stepI_no_new) (auto simp: same_login_def)
next
  case (Cleanup t)
  with assms show ?thesis
    by (intro session_stepI_no_new)
       (auto simp: same_login_def store_cleanup_def split: option.splits if_splits)
qed (simp_all add: assms session_step_unguarded session_step_guarded session_step_logout session_step_login)

lemma fresh_idsD:
  assumes "fresh_ids st" and "sessions st k = Some sess"
  shows "k < next_sid st"
    and "demoSessionId sess = Some d \<Longrightarrow> d < next_sid st"
    and "moUser sess \<noteq> None \<Longrightarrow> demoSessionId sess \<noteq> None"
  using assms unfolding fresh_ids_def by blast+

lemma one_id_per_loginD:
  assumes "one_id_per_login st" and "sessions st a = Some sa" and "sessions st b = Some sb"
    and "moUser sa \<noteq> None" and "moUser sb \<noteq> None" and "demoSessionId sa = demoSessionId sb"
  shows "a = b"
  using assms unfolding one_id_per_login_def by blast

lemma same_loginD:
  assumes "same_login a b"
  shows "moUser a = moUser b" and "demoSessionId a = demoSessionId b"
  using assms by (simp_all add: same_login_def)

lemma fresh_ids_keys_below: "fresh_ids st \<Longrightarrow> keys_below st"
  by (auto simp: fresh_ids_def keys_below_def)

lemma fresh_ids_session_step:
  assumes "fresh_ids st" and "session_step st st'"
  shows "fresh_ids st'"
  unfolding fresh_ids_def
proof (intro allI impI)
  fix k s1
  assume k: "sessions st' k = Some s1"
  from assms(2) k consider
      (kept) s0 where "sessions st k = Some s0" "same_login s0 s1"
    | (new) "next_sid st \<le> k" "k < next_sid st'"
        "moUser s1 = None \<and> demoSessionId s1 = None \<or> demoSessionId s1 = Some k
         \<or> (\<exists>k0 s0. sessions st k0 = Some s0 \<and> sessions st' k0 = None \<and> same_login s0 s1)"
    unfolding session_step_def by blast
  then show "k < next_sid st' \<and> (\<forall>d. demoSessionId s1 = Some d \<longrightarrow> d < next_sid st')
        \<and> (moUser s1 \<noteq> None \<longrightarrow> demoSessionId s1 \<noteq> None)"
  proof cases
    case kept
    from assms(2) have le: "next_sid st \<le> next_sid st'" by (simp add: session_step_def)
    note eq = same_loginD [OF kept(2)]
    from fresh_idsD(1) [OF assms(1) kept(1)] le have "k < next_sid st'" by simp
    moreover have "d < next_sid st'" if "demoSessionId s1 = Some d" for d
      using fresh_idsD(2) [OF assms(1) kept(1), of d] that eq le by simp
    moreover have "demoSessionId s1 \<noteq> None" if "moUser s1 \<noteq> None"
      using fresh_idsD(3) [OF assms(1) kept(1)] that eq by simp
    ultimately show ?thesis by blast
  next
    case new
    from assms(2) have le: "next_sid st \<le> next_sid st'" by (simp add: session_step_def)
    from new(3) show ?thesis
    proof (elim disjE exE conjE)
      assume "moUser s1 = None" "demoSessionId s1 = None"
      with new show ?thesis by simp
    next
      assume "demoSessionId s1 = Some k"
      with new show ?thesis by simp
    next
      fix k0 s0
      assume k0: "sessions st k0 = Some s0" and sl: "same_login s0 s1"
      note eq = same_loginD [OF sl]
      have "d < next_sid st'" if "demoSessionId s1 = Some d" for d
        using fresh_idsD(2) [OF assms(1) k0, of d] that eq le by simp
      moreover have "demoSessionId s1 \<noteq> None" if "moUser s1 \<noteq> None"
        using fresh_idsD(3) [OF assms(1) k0] that eq by simp
      ultimately show ?thesis using new by blast
    qed
  qed
qed

lemma one_id_session_step:
  assumes f: "fresh_ids st" and o: "one_id_per_login st" and s: "session_step st st'"
  shows "one_id_per_login st'"
  unfolding one_id_per_login_def
proof (intro allI impI, elim conjE)
  fix a b sa sb
  assume a: "sessions st' a = Some sa" and b: "sessions st' b = Some sb"
    and ua: "moUser sa \<noteq> None" and ub: "moUser sb \<noteq> None"
    and d: "demoSessionId sa = demoSessionId sb"
  have kb: "keys_below st" using f by (rule fresh_ids_keys_below)
  have one_new: "k = k'" if "next_sid st \<le> k" "next_sid st \<le> k'" "sessions st' k \<noteq> None"
    "sessions st' k' \<noteq> None" for k k'
    using s that unfolding session_step_def by blast
  have shape: "(\<exists>s0. sessions st k = Some s0 \<and> same_login s0 s1)
          \<or> (next_sid st \<le> k \<and> k < next_sid st'
              \<and> (moUser s1 = None \<and> demoSessionId s1 = None
                  \<or> demoSessionId s1 = Some k
                  \<or> (\<exists>k0 s0. sessions st k0 = Some s0 \<and> sessions st' k0 = None \<and> same_login s0 s1)))"
    if "sessions st' k = Some s1" for k s1
    using s that unfolding session_step_def by blast
  have kept_new: False
    if x: "sessions st' x = Some sx" and x0: "sessions st x = Some sx0" and xs: "same_login sx0 sx"
      and y: "sessions st' y = Some sy" and yn: "next_sid st \<le> y"
      and ux: "moUser sx \<noteq> None" and uy: "moUser sy \<noteq> None"
      and dxy: "demoSessionId sx = demoSessionId sy"
    for x y sx sy sx0
  proof -
    from kb x0 have xlt: "x < next_sid st" by (auto simp: keys_below_def)
    note eqx = same_loginD [OF xs]
    from fresh_idsD(3) [OF f x0] ux eqx obtain dx where dx0: "demoSessionId sx = Some dx"
      by auto
    with fresh_idsD(2) [OF f x0, of dx] eqx have dx: "demoSessionId sx = Some dx" "dx < next_sid st"
      by simp_all
    from kb yn have "sessions st y = None"
      by (cases "sessions st y") (auto simp: keys_below_def)
    with shape [OF y] uy consider "demoSessionId sy = Some y"
      | k0 s0 where "sessions st k0 = Some s0" "sessions st' k0 = None" "same_login s0 sy"
      by auto
    then show False
    proof cases
      case 1
      with dx dxy yn show False by simp
    next
      case 2
      note eqy = same_loginD [OF 2(3)]
      have "x = k0"
        using one_id_per_loginD [OF o x0 2(1)] ux uy dxy eqx eqy by simp
      with 2 x show False by simp
    qed
  qed
  show "a = b"
  proof (cases "next_sid st \<le> a")
    case na: True
    show ?thesis
    proof (cases "next_sid st \<le> b")
      case True
      with na a b show ?thesis by (intro one_new) auto
    next
      case False
      with kb shape [OF b] obtain sb0 where "sessions st b = Some sb0" "same_login sb0 sb"
        by auto
      from kept_new [OF b this a na ub ua] d show ?thesis by simp
    qed
  next
    case fa: False
    with shape [OF a] obtain sa0 where sa0: "sessions st a = Some sa0" "same_login sa0 sa"
      by auto
    show ?thesis
    proof (cases "next_sid st \<le> b")
      case True
      from kept_new [OF a sa0 b True ua ub d] show ?thesis by simp
    next
      case False
      with shape [OF b] obtain sb0 where sb0: "sessions st b = Some sb0" "same_login sb0 sb"
        by auto
      show ?thesis
        using one_id_per_loginD [OF o sa0(1) sb0(1)] ua ub d same_loginD [OF sa0(2)] same_loginD [OF sb0(2)]
        by simp
    qed
  qed
qed

lemma consistent_step:
  "consistent st \<Longrightarrow> consistent (snd (step bcrypt_compare toISOString ev st))"
  using session_step_step [of st bcrypt_compare toISOString ev]
  by (auto simp: consistent_def intro: fresh_ids_session_step one_id_session_step fresh_ids_keys_below)

lemma consistent_run:
  "consistent st \<Longrightarrow> consistent (run bcrypt_compare toISOString es st)"
  by (induction es arbitrary: st) (simp_all add: consistent_step)

lemma retired_session_step:
  assumes "retired s st" and "session_step st st'"
  shows "retired s st'"
proof -
  from assms have "next_sid st \<le> next_sid st'" by (simp add: session_step_def)
  moreover have "sessions st' s = None"
  proof (cases "sessions st' s")
    case (Some s1)
    with assms(2) have "(\<exists>s0. sessions st s = Some s0) \<or> next_sid st \<le> s"
      unfolding session_step_def by blast
    with assms(1) show ?thesis by (auto simp: retired_def)
  qed simp
  ultimately show ?thesis using assms(1) by (simp add: retired_def)
qed

lemma retired_run:
  "keys_below st \<Longrightarrow> retired s st \<Longrightarrow>
     keys_below (run bcrypt_compare toISOString es st) \<and> retired s (run bcrypt_compare toISOString es st)"
proof (induction es arbitrary: st)
  case Nil
  then show ?case by simp
next
  case (Cons ev es)
  let ?st' = "snd (step bcrypt_compare toISOString ev st)"
  from Cons.prems have s: "session_step st ?st'" by (simp add: session_step_step)
  have "keys_below ?st'"
    unfolding keys_below_def
  proof (intro allI impI)
    fix k
    assume "sessions ?st' k \<noteq> None"
    then obtain s1 where "sessions ?st' k = Some s1" by auto
    with s have "(\<exists>s0. sessions st k = Some s0) \<or> k < next_sid ?st'"
      unfolding session_step_def by blast
    moreover from s have "next_sid st \<le> next_sid ?st'" by (simp add: session_step_def)
    ultimately show "k < next_sid ?st'"
      using Cons.prems(1) by (auto simp: keys_below_def)
  qed
  moreover from Cons.prems s have "retired s ?st'" by (simp add: retired_session_step)
  ultimately show ?case using Cons.IH [of ?st'] by simp
qed

lemma retired_is_rejected:
  assumes "retired s st"
  shows "fst (requireAuth now e (session_begin a (Some s) st)) = AUTH_REQUIRED"
proof (cases rule: guard_cases [of "Some s" st a now e])
  case fresh
  then show ?thesis by simp
qed (use assms in \<open>auto simp: retired_def\<close>)

lemma keys_below_session_step:
  assumes "keys_below st" and s: "session_step st st'"
  shows "keys_below st'"
  unfolding keys_below_def
proof (intro allI impI)
  fix k
  assume "sessions st' k \<noteq> None"
  then obtain s1 where "sessions st' k = Some s1" by auto
  with s have "(\<exists>s0. sessions st k = Some s0) \<or> k < next_sid st'"
    unfolding session_step_def by blast
  moreover from s have "next_sid st \<le> next_sid st'" by (simp add: session_step_def)
  ultimately show "k < next_sid st'"
    using assms(1) by (auto simp: keys_below_def)
qed

lemma stale_session_step:
  assumes "stale T s st" and "session_step st st'" and "expiry_kept T st st'"
  shows "stale T s st'"
proof -
  from assms(1) have lt: "s < next_sid st" by (simp add: stale_def)
  from assms(2) have le: "next_sid st \<le> next_sid st'" by (simp add: session_step_def)
  have "expired st' s < T" if "sessions st' s = Some s1" for s1
  proof -
    from assms(2) that have "(\<exists>s0. sessions st s = Some s0) \<or> next_sid st \<le> s"
      unfolding session_step_def by blast
    with lt obtain s0 where s0: "sessions st s = Some s0" by auto
    with assms(1) have old: "expired st s < T" by (simp add: stale_def)
    have "expired st' s = expired st s"
    proof (rule ccontr)
      assume "expired st' s \<noteq> expired st s"
      with assms(3) lt have "T \<le> expired st s" unfolding expiry_kept_def by blast
      with old show False by simp
    qed
    with old show ?thesis by simp
  qed
  then have "sessions st' s = None \<or> expired st' s < T"
    by (cases "sessions st' s") auto
  with lt le show ?thesis by (simp add: stale_def)
qed

lemma stale_run:
  "keys_below st \<Longrightarrow> stale T s st \<Longrightarrow> \<forall>ev \<in> set es. not_before T ev \<Longrightarrow>
     keys_below (run bcrypt_compare toISOString es st) \<and> stale T s (run bcrypt_compare toISOString es st)"
proof (induction es arbitrary: st)
  case Nil
  then show ?case by simp
next
  case (Cons ev es)
  let ?st' = "snd (step bcrypt_compare toISOString ev st)"
  from Cons.prems have s: "session_step st ?st'" by (simp add: session_step_step)
  from Cons.prems have x: "expiry_kept T st ?st'" by (simp add: expiry_kept_step)
  from Cons.prems(1) s have "keys_below ?st'" by (rule keys_below_session_step)
  moreover from Cons.prems(2) s x have "stale T s ?st'" by (rule stale_session_step)
  ultimately show ?case using Cons.IH [of ?st'] Cons.prems(3) by simp
qed

lemma stale_is_rejected:
  assumes "stale T s st" and "T \<le> a"
  shows "fst (requireAuth now e (session_begin a (Some s) st)) = AUTH_REQUIRED"
proof (cases rule: guard_cases [of "Some s" st a now e])
  case fresh
  then show ?thesis by simp
qed (use assms in \<open>auto simp: stale_def\<close>)

subsection \<open>Expiry, rotation, logout and login\<close>

text \<open>
  C4, amended. In a consistent state, let \<open>s\<close> name an authenticated session whose
  \<open>lastActivity\<close> is set and more than 30 minutes before \<open>now\<close>. The next request under \<open>s\<close>
  fails on every guarded route (\<open>/logout\<close> included, which then does nothing else): the guard
  answers \<open>SESSION_EXPIRED\<close> when the session store still returns the session at the arrival
  of the request, and \<open>AUTH_REQUIRED\<close> when the store's own expiry has passed. After that
  request, whatever requests (none arriving earlier than it), sweeps and cleanups follow, the
  guard answers \<open>AUTH_REQUIRED\<close> to every later request that presents \<open>s\<close>; where the guard
  itself expired the session this holds at any reading of the clock.
\<close>

theorem idle_session_is_refused_for_good:
  assumes "consistent st" and "sessions st s = Some sess" and "moUser sess \<noteq> None"
    and "lastActivity sess = Some t" and "t \<noteq> 0" and "now - t > 30 * 60 * 1000"
  shows "fst (requireAuth now e (session_begin a (Some s) st)) =
           (if a \<le> expired st s then SESSION_EXPIRED else AUTH_REQUIRED)
       \<and> fst (guarded_route (Some s) a now fin e h st) =
           (if a \<le> expired st s then Session_expired else Auth_required)
       \<and> fst (logout_route (Some s) a now fin e err1 err2 de st) =
           (if a \<le> expired st s then Session_expired else Auth_required)
       \<and> snd (logout_route (Some s) a now fin e err1 err2 de st) = snd (guarded_route (Some s) a now fin e h st)
       \<and> (\<forall>es a' now' e'. (\<forall>ev \<in> set es. not_before a ev) \<and> a \<le> a' \<longrightarrow>
             fst (requireAuth now' e'
                    (session_begin a' (Some s)
                       (run bcrypt_compare toISOString es (snd (guarded_route (Some s) a now fin e h st)))))
               = AUTH_REQUIRED)
       \<and> (a \<le> expired st s \<longrightarrow>
            (\<forall>es a' now' e'.
               fst (requireAuth now' e'
                      (session_begin a' (Some s)
                         (run bcrypt_compare toISOString es (snd (guarded_route (Some s) a now fin e h st)))))
                 = AUTH_REQUIRED))"
proof (cases rule: guard_cases [of "Some s" st a now e])
  case fresh
  with assms(2) have ex: "\<not> a \<le> expired st s" by simp
  let ?st1 = "snd (guarded_route (Some s) a now fin e h st)"
  from fresh have st1: "?st1 = st\<lparr>next_sid := Suc (next_sid st)\<rparr>"
    and g: "fst (guarded_route (Some s) a now fin e h st) = Auth_required"
    by (simp_all add: guarded_route_def guard_response_def)
  from fresh have l: "logout_route (Some s) a now fin e err1 err2 de st = guarded_route (Some s) a now fin e h st"
    by (simp add: logout_route_def guarded_route_def)
  from assms(1) have kb: "keys_below st"
    by (simp add: consistent_def fresh_ids_keys_below)
  from kb assms(2) have "s < next_sid st" by (auto simp: keys_below_def)
  with st1 ex have r: "stale a s ?st1" by (simp add: stale_def)
  from kb st1 have kb1: "keys_below ?st1" by (auto simp: keys_below_def)
  have "fst (requireAuth now' e' (session_begin a' (Some s) (run bcrypt_compare toISOString es ?st1)))
          = AUTH_REQUIRED" if "\<forall>ev \<in> set es. not_before a ev" and "a \<le> a'" for es a' now' e'
  proof -
    from stale_run [OF kb1 r that(1)]
    have "stale a s (run bcrypt_compare toISOString es ?st1)" by simp
    then show ?thesis using that(2) by (rule stale_is_rejected)
  qed
  with fresh(2) g l ex show ?thesis by simp
next
  case (idle k sess')
  from idle(1) have k: "k = s" by simp
  with idle(3) have ex: "a \<le> expired st s" by simp
  let ?st1 = "snd (guarded_route (Some s) a now fin e h st)"
  from idle have st1: "?st1 = st\<lparr>sessions := (sessions st)(s := None)\<rparr>"
    and g: "fst (guarded_route (Some s) a now fin e h st) = Session_expired"
    by (simp_all add: guarded_route_def guard_response_def)
  from idle have l: "logout_route (Some s) a now fin e err1 err2 de st = guarded_route (Some s) a now fin e h st"
    by (simp add: logout_route_def guarded_route_def)
  from assms(1) have kb: "keys_below st"
    by (simp add: consistent_def fresh_ids_keys_below)
  from kb assms(2) have "s < next_sid st" by (auto simp: keys_below_def)
  with st1 have r: "retired s ?st1" by (simp add: retired_def)
  from kb st1 have kb1: "keys_below ?st1" by (auto simp: keys_below_def)
  have "fst (requireAuth now' e' (session_begin a' (Some s) (run bcrypt_compare toISOString es ?st1)))
          = AUTH_REQUIRED" for es a' now' e'
    using retired_run [OF kb1 r] by (simp add: retired_is_rejected)
  with idle(6) g l ex show ?thesis by simp
qed (use assms in \<open>auto simp: truthy_def elapsed_over_def MAX_IDLE_def\<close>)



text \<open>\<open>endSession\<close> and the logout handler: a success leaves no row of the session.\<close>

lemma endSession_purges:
  assumes "endSession err1 err2 d db0 = (Resolved b, db1)"
  shows "d \<notin> cd_session_id ` set (captured_data db1) \<and> d \<notin> cs_session_id ` set (capture_sessions db1)"
  using assms by (auto simp: endSession_def Let_def split: option.splits)

lemma logout_handler_purges:
  assumes "req_session r = Some sess" and "demoSessionId sess = Some d"
    and "logout_handler err1 err2 de (r, st1) = (Logout_success, r', st')"
  shows "d \<notin> cd_session_id ` set (captured_data (store st'))
       \<and> d \<notin> cs_session_id ` set (capture_sessions (store st'))"
proof -
  obtain p db1 where e: "endSession err1 err2 d (store st1) = (p, db1)"
    by (cases "endSession err1 err2 d (store st1)") auto
  with assms obtain b where "p = Resolved b" and "store st' = db1"
    by (auto simp: logout_handler_def session_destroy_def Let_def split: promise.splits if_splits)
  with e endSession_purges show ?thesis by blast
qed

text \<open>
  C2. The claim: ending a session, by logout or by idle expiry, removes its records and its
  capture session before completion is reported. The code does so on logout: when \<open>/logout\<close>
  answers success for the session stored under \<open>k\<close>, no row of its capture session \<open>d\<close> is
  left in either table. On idle expiry it does not: whenever the guard answers
  \<open>SESSION_EXPIRED\<close>, on \<open>/logout\<close> or on any other guarded route, the capture store is exactly
  what it was.
\<close>

theorem logout_purges_expiry_does_not:
  "(sessions st k = Some sess \<and> demoSessionId sess = Some d
      \<and> fst (logout_route (Some k) a now fin e err1 err2 de st) = Logout_success \<longrightarrow>
        d \<notin> cd_session_id ` set (captured_data (store (snd (logout_route (Some k) a now fin e err1 err2 de st))))
      \<and> d \<notin> cs_session_id ` set (capture_sessions (store (snd (logout_route (Some k) a now fin e err1 err2 de st)))))
   \<and> (fst (logout_route c a now fin e err1 err2 de st) = Session_expired \<longrightarrow>
        store (snd (logout_route c a now fin e err1 err2 de st)) = store st)
   \<and> (fst (guarded_route c a now fin e h st) = Session_expired \<longrightarrow>
        store (snd (guarded_route c a now fin e h st)) = store st)"
proof -
  let ?L = "logout_route (Some k) a now fin e err1 err2 de st"
  have purge: "d \<notin> cd_session_id ` set (captured_data (store (snd ?L)))
      \<and> d \<notin> cs_session_id ` set (capture_sessions (store (snd ?L)))"
    if a: "sessions st k = Some sess \<and> demoSessionId sess = Some d
      \<and> fst (logout_route (Some k) a now fin e err1 err2 de st) = Logout_success"
  proof (cases rule: guard_cases [of "Some k" st a now e])
    case (rotated k' sess')
    with a have k: "k' = k" "sess' = sess" by simp_all
    let ?s1 = "sess\<lparr>lastActivity := Some now, lastRegenerated := Some now\<rparr>"
    let ?r = "\<lparr>sessionID = next_sid st, req_session = Some ?s1, originalId = k, loaded = Some sess\<rparr>"
    let ?st1 = "st\<lparr>sessions := (sessions st)(k := None), next_sid := Suc (next_sid st)\<rparr>"
    obtain resp r' st' where h: "logout_handler err1 err2 de (?r, ?st1) = (resp, r', st')"
      by (cases "logout_handler err1 err2 de (?r, ?st1)") auto
    with rotated k a have "resp = Logout_success" and res: "snd ?L = session_end fin (r', st')"
      by (simp_all add: logout_route_def)
    with h a logout_handler_purges [of ?r ?s1 d err1 err2 de ?st1 r' st']
    have "d \<notin> cd_session_id ` set (captured_data (store st'))
       \<and> d \<notin> cs_session_id ` set (capture_sessions (store st'))"
      by simp
    moreover have "store (session_end fin (r', st')) = store st'"
      by simp
    ultimately show ?thesis using res by simp
  next
    case (touched k' sess')
    with a have k: "k' = k" "sess' = sess" by simp_all
    let ?s1 = "sess\<lparr>lastActivity := Some now\<rparr>"
    let ?r = "\<lparr>sessionID = k, req_session = Some ?s1, originalId = k, loaded = Some sess\<rparr>"
    obtain resp r' st' where h: "logout_handler err1 err2 de (?r, st) = (resp, r', st')"
      by (cases "logout_handler err1 err2 de (?r, st)") auto
    with touched k a have "resp = Logout_success" and res: "snd ?L = session_end fin (r', st')"
      by (simp_all add: logout_route_def)
    with h a logout_handler_purges [of ?r ?s1 d err1 err2 de st r' st']
    have "d \<notin> cd_session_id ` set (captured_data (store st'))
       \<and> d \<notin> cs_session_id ` set (capture_sessions (store st'))"
      by simp
    moreover have "store (session_end fin (r', st')) = store st'"
      by simp
    ultimately show ?thesis using res by simp
  qed (use a in \<open>auto simp: logout_route_def guard_response_def\<close>)
  have expiry: "store (snd (logout_route c a now fin e err1 err2 de st)) = store st"
    if a: "fst (logout_route c a now fin e err1 err2 de st) = Session_expired"
  proof (cases rule: guard_cases [of c st a now e])
    case (rotated k' sess')
    then have "fst (logout_route c a now fin e err1 err2 de st) \<in> {Logout_success, Logout_failed, Logout_error}"
      by (auto simp: logout_route_def logout_handler_def session_destroy_def Let_def
            split: option.splits promise.splits prod.splits)
    with a show ?thesis by simp
  next
    case (touched k' sess')
    then have "fst (logout_route c a now fin e err1 err2 de st) \<in> {Logout_success, Logout_failed, Logout_error}"
      by (auto simp: logout_route_def logout_handler_def session_destroy_def Let_def
            split: option.splits promise.splits prod.splits)
    with a show ?thesis by simp
  qed (use a in \<open>auto simp: logout_route_def guard_response_def\<close>)
  have guarded: "store (snd (guarded_route c a now fin e h st)) = store st"
    if a: "fst (guarded_route c a now fin e h st) = Session_expired"
    by (cases rule: guard_cases [of c st a now e])
       (use a in \<open>auto simp: guarded_route_def guard_response_def\<close>)
  from purge expiry guarded show ?thesis by blast
qed

text \<open>
  The admission middleware by itself keeps the limit: run on a request of an identity that holds
  at most \<open>allowedSessions\<close> entries, it leaves at most that many, and it answers
  \<open>MAX_SESSIONS\<close>, registering nothing, when the identity holds that many entries under other
  identifiers.
\<close>

lemma update_count:
  assumes "distinct (map fst xs)"
  shows "length (filter P (map snd (AList.update k v xs))) =
         length (filter (\<lambda>p. fst p \<noteq> k \<and> P (snd p)) xs) + (if P v then 1 else 0)"
  using assms
proof (induction xs)
  case Nil
  then show ?case by simp
next
  case (Cons p xs)
  obtain k' e where p: "p = (k', e)" by (cases p)
  show ?case
  proof (cases "k' = k")
    case True
    with Cons.prems p have "k \<notin> fst ` set xs" by simp
    then have "filter (\<lambda>p. fst p \<noteq> k \<and> P (snd p)) xs = filter (\<lambda>p. P (snd p)) xs"
      by (intro filter_cong) auto
    then have "length (filter (\<lambda>p. fst p \<noteq> k \<and> P (snd p)) xs) = length (filter P (map snd xs))"
      by (simp add: filter_map comp_def)
    with True p show ?thesis by simp
  next
    case False
    with Cons p show ?thesis by simp
  qed
qed

lemma update_member: "p \<in> set (AList.update k v xs) \<Longrightarrow> p = (k, v) \<or> p \<in> set xs"
  by (induction xs) (auto split: if_splits)

lemma others_count:
  assumes "registry_ok st"
  shows "length (filter (\<lambda>s. as_username s = uname \<and> as_sessionId s \<noteq> k) (map snd (activeSessions st))) =
         length (filter (\<lambda>p. fst p \<noteq> k \<and> as_username (snd p) = uname) (activeSessions st))"
proof -
  have "filter (\<lambda>p. fst p \<noteq> k \<and> as_username (snd p) = uname) (activeSessions st) =
        filter (\<lambda>p. as_username (snd p) = uname \<and> as_sessionId (snd p) \<noteq> k) (activeSessions st)"
    using assms by (intro filter_cong) (auto simp: registry_ok_def)
  then show ?thesis by (simp add: filter_map comp_def)
qed

lemma admission_keeps_limit:
  assumes "registry_ok st"
    and "req_session r = Some sess" and "moUser sess = Some u" and "mu_username u = uname"
    and "find (\<lambda>c. username c = uname) MO_USERS = Some cred"
    and "sessions_of uname st \<le> allowedSessions cred"
  shows "sessions_of uname (snd (checkConcurrentSessions now a b (r, st))) \<le> allowedSessions cred
       \<and> registry_ok (snd (checkConcurrentSessions now a b (r, st)))
       \<and> (allowedSessions cred \<le>
            length (filter (\<lambda>s. as_username s = uname \<and> as_sessionId s \<noteq> sessionID r)
                      (map snd (activeSessions st)))
          \<longrightarrow> checkConcurrentSessions now a b (r, st) = (MAX_SESSIONS, st))"
proof (cases "uname = []")
  case True
  with assms show ?thesis by (simp add: MO_USERS_def split: if_splits)
next
  case False
  let ?others = "length (filter (\<lambda>s. as_username s = uname \<and> as_sessionId s \<noteq> sessionID r)
                      (map snd (activeSessions st)))"
  show ?thesis
  proof (cases "allowedSessions cred \<le> ?others")
    case True
    with assms False have "checkConcurrentSessions now a b (r, st) = (MAX_SESSIONS, st)"
      by (simp add: checkConcurrentSessions_def Let_def)
    with assms True show ?thesis by simp
  next
    case lt: False
    let ?e = "\<lparr>as_username = uname, as_sessionId = sessionID r, startedAt = now, ip = a, userAgent = b\<rparr>"
    from assms False lt have res: "snd (checkConcurrentSessions now a b (r, st)) =
        st\<lparr>activeSessions := AList.update (sessionID r) ?e (activeSessions st)\<rparr>"
      by (simp add: checkConcurrentSessions_def Let_def)
    from assms(1) have d: "distinct (map fst (activeSessions st))" by (simp add: registry_ok_def)
    have "sessions_of uname (snd (checkConcurrentSessions now a b (r, st))) = ?others + 1"
      unfolding res sessions_of_def
      using update_count [OF d, of "\<lambda>s. as_username s = uname" "sessionID r" ?e]
        others_count [OF assms(1), of uname "sessionID r"]
      by simp
    moreover have "registry_ok (snd (checkConcurrentSessions now a b (r, st)))"
    proof -
      have "as_sessionId (snd p) = fst p"
        if "p \<in> set (AList.update (sessionID r) ?e (activeSessions st))" for p
      proof -
        from that have "p = (sessionID r, ?e) \<or> p \<in> set (activeSessions st)"
          by (rule update_member)
        with assms(1) show ?thesis by (auto simp: registry_ok_def)
      qed
      with d show ?thesis unfolding res by (simp add: registry_ok_def AList.distinct_update)
    qed
    ultimately show ?thesis using lt by simp
  qed
qed

text \<open>
  C3. The claim: a login of an identity that already holds \<open>allowedSessions\<close> sessions is
  denied. The code: with valid credentials and no store error, \<open>/login\<close> answers success in
  every state, however many sessions the identity holds, and leaves \<open>activeSessions\<close> as it
  was; \<open>checkConcurrentSessions\<close> is not part of the route. (The second hypothesis says that
  the capture store knows no identifier the session store has not issued yet, so that the
  \<open>UNIQUE\<close> column accepts the new row.)
\<close>

theorem login_ignores_session_limit:
  assumes "fst (validateMOCredentials bcrypt_compare uname password) = Some user"
    and "\<forall>cs \<in> set (capture_sessions (store st)). cs_session_id cs < next_sid st"
  shows "fst (login_route bcrypt_compare toISOString c a now fin ts False None uname password st) = Login_success
       \<and> activeSessions (snd (login_route bcrypt_compare toISOString c a now fin ts False None uname password st))
           = activeSessions st"
proof (cases rule: session_begin_cases [of c st a])
  case fresh
  from assms(2) have "Suc (next_sid st) \<notin> cs_session_id ` set (capture_sessions (store st))"
    by auto
  with fresh assms(1) show ?thesis
    by (simp add: login_route_def login_handler_def session_regenerate_def createSession_def Let_def)
next
  case (loaded k sess)
  from assms(2) have "next_sid st \<notin> cs_session_id ` set (capture_sessions (store st))"
    by auto
  with loaded assms(1) show ?thesis
    by (simp add: login_route_def login_handler_def session_regenerate_def createSession_def Let_def)
qed

lemmas route_defs =
  guarded_route_def logout_route_def unguarded_route_def login_route_def requireAuth_def
  session_begin_def session_generate_def session_end_def isModified_def session_destroy_def session_regenerate_def
  store_get_def store_set_def store_touch_def maxAge_def guard_response_def truthy_def
  elapsed_over_def MAX_IDLE_def empty_session_def Let_def

lemmas example_defs =
  st_login_def st_captured_def st_touched_def sess_login_def sess_captured_def sess_unset_def
  authenticated_as_def route_defs

lemma st_login_reached:
  "run demo_compare toISOString_at login_events initial = st_login"
  by (simp add: login_events_def route_defs login_handler_def createSession_def
        validateMOCredentials_def MO_USERS_def demo_compare_def toISOString_at_def initial_def
        empty_db_def st_login_def sess_login_def store_live_def eval_nat_numeral)

lemma st_captured_reached:
  "run demo_compare toISOString_at [hd capture_events] st_login = st_captured"
  by (simp add: capture_events_def example_defs store_one_def)

lemma st_touched_reached:
  "run demo_compare toISOString_at capture_events st_login = st_touched"
  by (simp add: capture_events_def example_defs store_one_def)

lemma consistent_initial: "consistent initial"
  by (simp add: consistent_def fresh_ids_def one_id_per_login_def initial_def)

lemma consistent_st_login: "consistent st_login"
  using consistent_run [OF consistent_initial, of demo_compare toISOString_at login_events]
  by (simp only: st_login_reached)

lemma consistent_st_touched: "consistent st_touched"
  using consistent_run [OF consistent_st_login, of demo_compare toISOString_at capture_events]
  by (simp only: st_touched_reached)

subsection \<open>The theorems at the example states\<close>

text \<open>
  C4, as stated, fails on the spec's own scenario: login at 10:00:00, next guarded request at
  10:31:00. The session was last active 31 minutes ago, but the store has stopped returning it
  at 10:30:00, so the request gets a new empty session and the guard answers \<open>AUTH_REQUIRED\<close>,
  not \<open>SESSION_EXPIRED\<close>.
\<close>

theorem idle_request_after_store_expiry:
  "responses demo_compare toISOString_at
     (login_events @ [Guarded (Some 2) 1793615460000 1793615460000 1793615460000 False id]) initial
     = [Handler_ran, Login_success, Auth_required]
   \<and> sessions (run demo_compare toISOString_at login_events initial) 2 = Some sess_login
   \<and> moUser sess_login \<noteq> None
   \<and> lastActivity sess_login = Some 1793613600000
   \<and> (1793615460000 :: time) - 1793613600000 > 30 * 60 * 1000
   \<and> fst (requireAuth 1793615460000 False (session_begin 1793615460000 (Some 2) st_login))
       = AUTH_REQUIRED"
proof -
  have first: "responses demo_compare toISOString_at login_events initial = [Handler_ran, Login_success]"
    by (simp add: login_events_def route_defs login_handler_def createSession_def
        validateMOCredentials_def MO_USERS_def demo_compare_def toISOString_at_def initial_def
        empty_db_def eval_nat_numeral)
  have app: "responses demo_compare toISOString_at (xs @ [ev]) st =
      responses demo_compare toISOString_at xs st
        @ [fst (step demo_compare toISOString_at ev (run demo_compare toISOString_at xs st))]" for xs ev st
    by (induction xs arbitrary: st) simp_all
  have last: "fst (guarded_route (Some 2) 1793615460000 1793615460000 1793615460000 False id st_login)
      = Auth_required"
    by (simp add: example_defs)
  have guard: "fst (requireAuth 1793615460000 False (session_begin 1793615460000 (Some 2) st_login))
       = AUTH_REQUIRED"
    by (simp add: example_defs)
  from first last guard show ?thesis
    by (simp add: app st_login_reached) (simp add: st_login_def sess_login_def)
qed

text \<open>
  The amended statement on both branches. In \<open>st_touched\<close> a request of 10:20:00 has moved the
  store's expiry to 10:50:00: the guarded request of 10:31:00 is answered \<open>SESSION_EXPIRED\<close>.
  In \<open>st_login\<close> it is answered \<open>AUTH_REQUIRED\<close>. Either way the identifier 2 is refused at
  10:32:00, after two other requests.
\<close>

theorem idle_session_is_refused_for_good_witness:
  "fst (guarded_route (Some 2) 1793615460000 1793615460000 1793615460000 False id st_touched)
     = Session_expired
   \<and> fst (guarded_route (Some 2) 1793615460000 1793615460000 1793615460000 False id st_login)
     = Auth_required
   \<and> fst (requireAuth 1793615520000 False
            (session_begin 1793615520000 (Some 2)
               (run demo_compare toISOString_at
                  [Unguarded (Some 2) 1793615490000 1793615490000, Unguarded None 1793615500000 1793615500000]
                  (snd (guarded_route (Some 2) 1793615460000 1793615460000 1793615460000 False id st_touched)))))
       = AUTH_REQUIRED
   \<and> fst (requireAuth 1793615520000 False
            (session_begin 1793615520000 (Some 2)
               (run demo_compare toISOString_at
                  [Unguarded (Some 2) 1793615490000 1793615490000, Unguarded None 1793615500000 1793615500000]
                  (snd (guarded_route (Some 2) 1793615460000 1793615460000 1793615460000 False id st_login)))))
       = AUTH_REQUIRED"
proof -
  let ?es = "[Unguarded (Some 2) 1793615490000 1793615490000, Unguarded None 1793615500000 1793615500000]"
  have chron: "(\<forall>ev \<in> set ?es. not_before 1793615460000 ev) \<and> (1793615460000 :: time) \<le> 1793615520000"
    by simp
  have t: "sessions st_touched 2 = Some sess_captured" "moUser sess_captured \<noteq> None"
    "lastActivity sess_captured = Some 1793613600500" "(1793613600500 :: time) \<noteq> 0"
    "(1793615460000 :: time) - 1793613600500 > 30 * 60 * 1000"
    by (simp_all add: st_touched_def st_captured_def sess_captured_def sess_login_def)
  have l: "sessions st_login 2 = Some sess_login" "moUser sess_login \<noteq> None"
    "lastActivity sess_login = Some 1793613600000" "(1793613600000 :: time) \<noteq> 0"
    "(1793615460000 :: time) - 1793613600000 > 30 * 60 * 1000"
    by (simp_all add: st_login_def sess_login_def)
  have x: "(1793615460000 :: time) \<le> expired st_touched 2" "\<not> (1793615460000 :: time) \<le> expired st_login 2"
    by (simp_all add: st_touched_def st_captured_def st_login_def)
  from idle_session_is_refused_for_good [OF consistent_st_touched t, where a = 1793615460000
      and fin = 1793615460000 and e = False and h = id and ?err1.0 = None and ?err2.0 = None
      and de = False and bcrypt_compare = demo_compare and toISOString = toISOString_at]
  have t1: "fst (guarded_route (Some 2) 1793615460000 1793615460000 1793615460000 False id st_touched)
     = Session_expired"
    and t2: "\<forall>es a' now' e'. (\<forall>ev \<in> set es. not_before 1793615460000 ev) \<and> 1793615460000 \<le> a' \<longrightarrow>
             fst (requireAuth now' e'
                    (session_begin a' (Some 2)
                       (run demo_compare toISOString_at es
                          (snd (guarded_route (Some 2) 1793615460000 1793615460000 1793615460000 False id st_touched)))))
               = AUTH_REQUIRED"
    using x(1) by simp_all
  from idle_session_is_refused_for_good [OF consistent_st_login l, where a = 1793615460000
      and fin = 1793615460000 and e = False and h = id and ?err1.0 = None and ?err2.0 = None
      and de = False and bcrypt_compare = demo_compare and toISOString = toISOString_at]
  have l1: "fst (guarded_route (Some 2) 1793615460000 1793615460000 1793615460000 False id st_login)
     = Auth_required"
    and l2: "\<forall>es a' now' e'. (\<forall>ev \<in> set es. not_before 1793615460000 ev) \<and> 1793615460000 \<le> a' \<longrightarrow>
             fst (requireAuth now' e'
                    (session_begin a' (Some 2)
                       (run demo_compare toISOString_at es
                          (snd (guarded_route (Some 2) 1793615460000 1793615460000 1793615460000 False id st_login)))))
               = AUTH_REQUIRED"
    using x(2) by simp_all
  from t2 [rule_format, OF chron, of 1793615520000 False]
    l2 [rule_format, OF chron, of 1793615520000 False] t1 l1
  show ?thesis by simp
qed



text \<open>
  Three years after the login: the session without \<open>lastActivity\<close> passes the guard, the
  session with it is expired.
\<close>

theorem guard_skips_idle_check_when_unset_witness:
  "fst (requireAuth 1893613600000 False
          (\<lparr>sessionID = 2, req_session = Some sess_unset, originalId = 2, loaded = Some sess_unset\<rparr>, st_login)) = NEXT
   \<and> fst (requireAuth 1893613600000 False
          (\<lparr>sessionID = 2, req_session = Some sess_login, originalId = 2, loaded = Some sess_login\<rparr>, st_login))
       = SESSION_EXPIRED"
  using guard_skips_idle_check_when_unset
      [of "\<lparr>sessionID = 2, req_session = Some sess_unset, originalId = 2, loaded = Some sess_unset\<rparr>"
      sess_unset _ 1893613600000 False st_login]
    guard_skips_idle_check_when_unset
      [of "\<lparr>sessionID = 2, req_session = Some sess_login, originalId = 2, loaded = Some sess_login\<rparr>"
      sess_login _ 1893613600000 False st_login]
  by (simp add: sess_unset_def sess_login_def truthy_def)

text \<open>
  \<open>st_captured\<close>: a logout at 10:05:00 empties both tables. \<open>st_touched\<close>: a guarded request
  at 10:31:00, and likewise a logout, is answered \<open>SESSION_EXPIRED\<close> and leaves the record and
  the capture session of session 2 in the store.
\<close>

theorem logout_purges_expiry_does_not_witness:
  "fst (logout_route (Some 2) 1793613900000 1793613900000 1793613900000 False None None False st_captured)
     = Logout_success
   \<and> captured_data (store (snd (logout_route (Some 2) 1793613900000 1793613900000 1793613900000
                                   False None None False st_captured))) = []
   \<and> capture_sessions (store (snd (logout_route (Some 2) 1793613900000 1793613900000 1793613900000
                                      False None None False st_captured))) = []
   \<and> fst (guarded_route (Some 2) 1793615460000 1793615460000 1793615460000 False id st_touched) = Session_expired
   \<and> store (snd (guarded_route (Some 2) 1793615460000 1793615460000 1793615460000 False id st_touched)) = store_one
   \<and> fst (logout_route (Some 2) 1793615460000 1793615460000 1793615460000 False None None False st_touched)
       = Session_expired
   \<and> store (snd (logout_route (Some 2) 1793615460000 1793615460000 1793615460000 False None None False st_touched))
       = store_one
   \<and> map cd_session_id (captured_data store_one) = [2]
   \<and> map cs_session_id (capture_sessions store_one) = [2]"
proof -
  have g: "fst (guarded_route (Some 2) 1793615460000 1793615460000 1793615460000 False id st_touched)
      = Session_expired"
    "fst (logout_route (Some 2) 1793615460000 1793615460000 1793615460000 False None None False st_touched)
       = Session_expired"
    by (simp_all add: example_defs)
  have l: "fst (logout_route (Some 2) 1793613900000 1793613900000 1793613900000 False None None False st_captured)
       = Logout_success"
    "captured_data (store (snd (logout_route (Some 2) 1793613900000 1793613900000 1793613900000
                                   False None None False st_captured))) = []"
    "capture_sessions (store (snd (logout_route (Some 2) 1793613900000 1793613900000 1793613900000
                                      False None None False st_captured))) = []"
    by (simp_all add: example_defs logout_handler_def endSession_def store_one_def captureData_def
          store_live_def)
  have s: "sessions st_captured 2 = Some sess_captured" "demoSessionId sess_captured = Some 2"
    "store st_touched = store_one"
    by (simp_all add: st_touched_def st_captured_def sess_captured_def sess_login_def)
  from logout_purges_expiry_does_not [of st_captured 2 sess_captured 2 1793613900000 1793613900000
      1793613900000 False None None False None id]
    logout_purges_expiry_does_not [of st_touched 2 sess_captured 2 1793615460000 1793615460000
      1793615460000 False None None False "Some 2" id] g l s
  show ?thesis
    by (simp add: store_one_def captureData_def store_live_def Let_def)
qed

lemma after_two_more:
  "run demo_compare toISOString_at (butlast three_more_logins) st_login =
     \<lparr>sessions = Map.empty(2 \<mapsto> sess_login,
         4 \<mapsto> \<lparr>moUser = Some \<lparr>mu_username = ''demo.operator'', mu_role = ''operator'',
                                 sessionStart = 1793613660000\<rparr>,
                demoSessionId = Some 4, lastActivity = Some 1793613660000,
                lastRegenerated = Some 1793613660000\<rparr>,
         6 \<mapsto> \<lparr>moUser = Some \<lparr>mu_username = ''demo.operator'', mu_role = ''operator'',
                                 sessionStart = 1793613720000\<rparr>,
                demoSessionId = Some 6, lastActivity = Some 1793613720000,
                lastRegenerated = Some 1793613720000\<rparr>),
      expired = (\<lambda>k. 0)(2 := 1793615400000, 4 := 1793615460000, 6 := 1793615520000),
      next_sid = 7, activeSessions = [],
      store = store_live\<lparr>capture_sessions := capture_sessions store_live @
        [\<lparr>cs_id = 2, cs_session_id = 4, mo_username = ''demo.operator'',
          cs_created_at = ''2026-11-02 10:01:00'', expires_at = ''2026-11-02T10:31:00.000Z'',
          cs_status = ''active''\<rparr>,
         \<lparr>cs_id = 3, cs_session_id = 6, mo_username = ''demo.operator'',
          cs_created_at = ''2026-11-02 10:02:00'', expires_at = ''2026-11-02T10:32:00.000Z'',
          cs_status = ''active''\<rparr>],
        capture_sessions_seq := 3\<rparr>\<rparr>"
  by (simp add: three_more_logins_def route_defs login_handler_def createSession_def
        validateMOCredentials_def MO_USERS_def demo_compare_def
        toISOString_at_def st_login_def sess_login_def
        store_live_def eval_nat_numeral fun_upd_twist)

text \<open>
  \<open>demo.operator\<close> may hold 3 sessions. After the login of \<open>st_login\<close>, three more logins all
  succeed; the identifiers 2, 4, 6 and 8 then hold authenticated sessions of \<open>demo.operator\<close>,
  and \<open>activeSessions\<close> is still empty.
\<close>

theorem login_ignores_session_limit_witness:
  "responses demo_compare toISOString_at three_more_logins st_login =
     [Login_success, Login_success, Login_success]
   \<and> map (authenticated_as (run demo_compare toISOString_at three_more_logins st_login)) [2, 4, 6, 8] =
       [Some ''demo.operator'', Some ''demo.operator'', Some ''demo.operator'', Some ''demo.operator'']
   \<and> map allowedSessions (filter (\<lambda>u. username u = ''demo.operator'') MO_USERS) = [3]
   \<and> activeSessions (run demo_compare toISOString_at three_more_logins st_login) = []"
proof -
  let ?st2 = "run demo_compare toISOString_at (butlast three_more_logins) st_login"
  let ?fourth = "login_route demo_compare toISOString_at None 1793613780000 1793613780000 1793613780000
                   ''2026-11-02 10:03:00'' False None ''demo.operator'' ''correct-horse'' ?st2"
  have v: "fst (validateMOCredentials demo_compare ''demo.operator'' ''correct-horse'') =
             Some \<lparr>username = ''demo.operator'', passwordHash = ''$2b$10$YourHashedPasswordHere'',
                    role = ''operator'', allowedSessions = 3\<rparr>"
    by (simp add: validateMOCredentials_def MO_USERS_def demo_compare_def)
  have f: "\<forall>cs \<in> set (capture_sessions (store ?st2)). cs_session_id cs < next_sid ?st2"
    by (simp add: after_two_more store_live_def)
  from login_ignores_session_limit [OF v f, of toISOString_at None 1793613780000 1793613780000
      1793613780000 "''2026-11-02 10:03:00''"]
  have fourth: "fst ?fourth = Login_success" "activeSessions (snd ?fourth) = []"
    by (simp_all add: after_two_more)
  have first_two: "responses demo_compare toISOString_at (butlast three_more_logins) st_login =
      [Login_success, Login_success]"
    by (simp add: three_more_logins_def route_defs login_handler_def createSession_def
        validateMOCredentials_def MO_USERS_def demo_compare_def
        toISOString_at_def st_login_def sess_login_def
        store_live_def eval_nat_numeral)
  have run_all: "run demo_compare toISOString_at three_more_logins st_login = snd ?fourth"
    by (simp add: three_more_logins_def)
  have resp_all: "responses demo_compare toISOString_at three_more_logins st_login =
      responses demo_compare toISOString_at (butlast three_more_logins) st_login @ [fst ?fourth]"
    by (simp add: three_more_logins_def)
  have who: "map (authenticated_as (snd ?fourth)) [2, 4, 6, 8] =
       [Some ''demo.operator'', Some ''demo.operator'', Some ''demo.operator'', Some ''demo.operator'']"
    by (simp add: after_two_more authenticated_as_def route_defs login_handler_def createSession_def
        validateMOCredentials_def MO_USERS_def
        demo_compare_def toISOString_at_def sess_login_def store_live_def
        eval_nat_numeral)
  show ?thesis
    unfolding run_all resp_all first_two
    using fourth who by (simp add: MO_USERS_def)
qed

end
